theory Spec2Isabelle
  imports Main "HOL-Library.Word"
begin

unbundle bit_operations_syntax

section \<open>The scan decoder of image/jpeg (scan.go)\<close>

text \<open>
  A shallow embedding of \<^verbatim>\<open>src/image/jpeg/scan.go\<close>: the method \<^verbatim>\<open>processSOS\<close> with
  its helpers \<^verbatim>\<open>makeImg\<close>, \<^verbatim>\<open>refine\<close>, \<^verbatim>\<open>refineNonZeroes\<close> and \<^verbatim>\<open>reconstructBlock\<close>.

  Conventions of the embedding.
  \<^item> Go \<^verbatim>\<open>int\<close> values that only ever hold counts, sizes, indices and sampling
    factors (they are parsed from unsigned header fields and loop from 0 upwards) are
    \<open>nat\<close>; on such values Go's \<^verbatim>\<open>/\<close> and \<^verbatim>\<open>%\<close> are \<open>div\<close> and \<open>mod\<close>. A division whose
    divisor can be 0 is guarded by an explicit panic.
  \<^item> \<^verbatim>\<open>uint8\<close>, \<^verbatim>\<open>uint16\<close>, \<^verbatim>\<open>int16\<close>, \<^verbatim>\<open>int32\<close> and \<^verbatim>\<open>uint32\<close> values are words of that
    width; \<open>+\<close>, \<open>-\<close>, \<open>*\<close> wrap and \<open>sint\<close> reads the signed types.
  \<^item> A fixed-size Go array is a list of that length; a \<^verbatim>\<open>nil\<close> slice is the empty list.
  \<^item> An \<^verbatim>\<open>error\<close> return is \<open>Inl\<close>, a run-time panic is \<open>Inl (Panic _)\<close>.
  \<^item> The collaborators that scan.go calls but does not define (the bit reader, the
    Huffman decoder, the byte source, the inverse DCT, the colour conversion) are the
    fields of the record \<open>env\<close>; every theorem holds for all of them.
\<close>

subsection \<open>Errors and data\<close>

datatype error =
    FormatError string
  | UnsupportedError string
  | LowerError nat
  | Panic string

type_synonym block = "32 word list"

record component =
  comp_h :: nat
  comp_v :: nat
  comp_c :: "8 word"
  comp_tq :: "8 word"

text \<open>One entry of the local array \<^verbatim>\<open>scan\<close> of processSOS.\<close>

record scanComp =
  sc_compIndex :: nat
  sc_td :: "8 word"
  sc_ta :: "8 word"

text \<open>
  The fields of \<^verbatim>\<open>decoder\<close> that scan.go reads or writes. \<open>d_bits\<close> is the field
  \<^verbatim>\<open>d.bits\<close>, of a type declared outside scan.go (type parameter \<open>'b\<close>); \<open>d_src\<close> stands
  for the byte source behind the bit reader (\<^verbatim>\<open>d.r\<close> and \<^verbatim>\<open>d.bytes\<close>, type parameter
  \<open>'s\<close>). \<open>d_img1\<close> and \<open>d_img3\<close> say whether \<^verbatim>\<open>d.img1\<close> and \<^verbatim>\<open>d.img3\<close> are non-nil.
\<close>

record ('b, 's) decoder =
  d_bits :: 'b
  d_src :: 's
  d_width :: nat
  d_height :: nat
  d_img1 :: bool
  d_img3 :: bool
  d_blackPix :: "8 word list"
  d_blackStride :: nat
  d_ri :: nat
  d_nComp :: nat
  d_baseline :: bool
  d_progressive :: bool
  d_eobRun :: "16 word"
  d_comp :: "component list"
  d_progCoeffs :: "block list list"
  d_quant :: "block list"
  d_tmp :: "8 word list"

text \<open>
  The collaborators. Each entropy primitive is a method of the decoder that works on the
  bit reader and the byte source only, so it is a function on the pair of them that
  fails or returns a result and the new pair. \<open>e_decodeHuffman\<close> takes the table as its
  class (\<^verbatim>\<open>dcTable\<close> or \<^verbatim>\<open>acTable\<close>) and selector. \<open>e_bits0\<close> is the zero value \<^verbatim>\<open>bits{}\<close>.
\<close>

record ('b, 's) env =
  e_bits0 :: 'b
  e_readFull :: "nat \<Rightarrow> 'b \<times> 's \<Rightarrow> error + (8 word list \<times> 'b \<times> 's)"
  e_decodeHuffman :: "nat \<Rightarrow> 8 word \<Rightarrow> 'b \<times> 's \<Rightarrow> error + (8 word \<times> 'b \<times> 's)"
  e_decodeBit :: "'b \<times> 's \<Rightarrow> error + (bool \<times> 'b \<times> 's)"
  e_decodeBits :: "nat \<Rightarrow> 'b \<times> 's \<Rightarrow> error + (32 word \<times> 'b \<times> 's)"
  e_receiveExtend :: "8 word \<Rightarrow> 'b \<times> 's \<Rightarrow> error + (32 word \<times> 'b \<times> 's)"
  e_idct :: "block \<Rightarrow> block"
  e_YCbCrToRGB :: "8 word \<Rightarrow> 8 word \<Rightarrow> 8 word \<Rightarrow> 8 word \<times> 8 word \<times> 8 word"

subsection \<open>Constants declared outside scan.go\<close>

text \<open>
  Modelled from the spec: the constants \<^verbatim>\<open>blockSize\<close>, \<^verbatim>\<open>maxComponents\<close>, \<^verbatim>\<open>maxTh\<close>,
  \<^verbatim>\<open>dcTable\<close>, \<^verbatim>\<open>acTable\<close>, \<^verbatim>\<open>rst0Marker\<close> and \<^verbatim>\<open>rst7Marker\<close> are used by scan.go and
  declared in a file that is not under src/. A block has exactly 64 coefficients and
  the sequential bounds are 0/63 (scan.go, the comment on zigStart and zigEnd); a
  frame has at most four components (makeImg reads \<^verbatim>\<open>d.comp[3]\<close>); table selectors
  are 0..3 and the restart markers RST0..RST7 are the bytes D0..D7 (JPEG, table B.1).
\<close>

definition blockSize :: nat where "blockSize = 64"
definition maxComponents :: nat where "maxComponents = 4"
definition maxTh :: "8 word" where "maxTh = 3"
definition dcTable :: nat where "dcTable = 0"
definition acTable :: nat where "acTable = 1"
definition rst0Marker :: "8 word" where "rst0Marker = 0xd0"
definition rst7Marker :: "8 word" where "rst7Marker = 0xd7"

text \<open>
  Modelled from the spec: the table \<^verbatim>\<open>unzig\<close> (declared outside src/) maps a zig-zag
  index to the natural-order index; it is the fixed zig-zag permutation of JPEG
  (figure A.6).
\<close>

definition unzig :: "nat list" where
  "unzig =
    [ 0,  1,  8, 16,  9,  2,  3, 10,
     17, 24, 32, 25, 18, 11,  4,  5,
     12, 19, 26, 33, 40, 48, 41, 34,
     27, 20, 13,  6,  7, 14, 21, 28,
     35, 42, 49, 56, 57, 50, 43, 36,
     29, 22, 15, 23, 30, 37, 44, 51,
     58, 59, 52, 45, 38, 31, 39, 46,
     53, 60, 61, 54, 47, 55, 62, 63]"

subsection \<open>Control: error propagation and for loops\<close>

text \<open>
  \<open>bindE m f\<close> is \<^verbatim>\<open>x, err := m; if err != nil { return err }; f(x)\<close>.
\<close>

definition bindE :: "error + 'a \<Rightarrow> ('a \<Rightarrow> error + 'b) \<Rightarrow> error + 'b" where
  "bindE m f = (case m of Inl e \<Rightarrow> Inl e | Inr x \<Rightarrow> f x)"

text \<open>
  \<open>forM [a..<b] body s\<close> is \<^verbatim>\<open>for i := a; i < b; i++ { body }\<close> on the state \<open>s\<close>, for a
  body that does not change \<^verbatim>\<open>i\<close> or the bound and may return an error.
\<close>

fun forM :: "nat list \<Rightarrow> (nat \<Rightarrow> 'a \<Rightarrow> error + 'a) \<Rightarrow> 'a \<Rightarrow> error + 'a" where
  "forM [] body s = Inr s"
| "forM (i # ns) body s =
     (case body i s of Inl e \<Rightarrow> Inl e | Inr s' \<Rightarrow> forM ns body s')"

subsection \<open>The primitives, as methods of the decoder\<close>

definition readFull ::
  "('b, 's) env \<Rightarrow> nat \<Rightarrow> ('b, 's) decoder \<Rightarrow> error + ('b, 's) decoder" where
  "readFull env n d =
     (if length (d_tmp d) < n then Inl (Panic ''slice bounds out of range'')
      else case e_readFull env n (d_bits d, d_src d) of
        Inl e \<Rightarrow> Inl e
      | Inr (bs, b', s') \<Rightarrow>
          Inr (d\<lparr>d_bits := b', d_src := s', d_tmp := take n bs @ drop n (d_tmp d)\<rparr>))"

definition decodeHuffman ::
  "('b, 's) env \<Rightarrow> nat \<Rightarrow> 8 word \<Rightarrow> ('b, 's) decoder \<Rightarrow> error + (8 word \<times> ('b, 's) decoder)" where
  "decodeHuffman env tc th d =
     (case e_decodeHuffman env tc th (d_bits d, d_src d) of
        Inl e \<Rightarrow> Inl e
      | Inr (x, b', s') \<Rightarrow> Inr (x, d\<lparr>d_bits := b', d_src := s'\<rparr>))"

definition decodeBit ::
  "('b, 's) env \<Rightarrow> ('b, 's) decoder \<Rightarrow> error + (bool \<times> ('b, 's) decoder)" where
  "decodeBit env d =
     (case e_decodeBit env (d_bits d, d_src d) of
        Inl e \<Rightarrow> Inl e
      | Inr (x, b', s') \<Rightarrow> Inr (x, d\<lparr>d_bits := b', d_src := s'\<rparr>))"

definition decodeBits ::
  "('b, 's) env \<Rightarrow> nat \<Rightarrow> ('b, 's) decoder \<Rightarrow> error + (32 word \<times> ('b, 's) decoder)" where
  "decodeBits env n d =
     (case e_decodeBits env n (d_bits d, d_src d) of
        Inl e \<Rightarrow> Inl e
      | Inr (x, b', s') \<Rightarrow> Inr (x, d\<lparr>d_bits := b', d_src := s'\<rparr>))"

definition receiveExtend ::
  "('b, 's) env \<Rightarrow> 8 word \<Rightarrow> ('b, 's) decoder \<Rightarrow> error + (32 word \<times> ('b, 's) decoder)" where
  "receiveExtend env t d =
     (case e_receiveExtend env t (d_bits d, d_src d) of
        Inl e \<Rightarrow> Inl e
      | Inr (x, b', s') \<Rightarrow> Inr (x, d\<lparr>d_bits := b', d_src := s'\<rparr>))"

subsection \<open>processSOS: the scan header (lines 57 to 148)\<close>

text \<open>
  The local variables that the header part of processSOS leaves for the rest:
  \<^verbatim>\<open>nComp\<close>, \<^verbatim>\<open>scan\<close>, \<^verbatim>\<open>zigStart\<close>, \<^verbatim>\<open>zigEnd\<close>, \<^verbatim>\<open>ah\<close> and \<^verbatim>\<open>al\<close>.
\<close>

record scanDesc =
  s_nComp :: nat
  s_scan :: "scanComp list"
  s_zigStart :: nat
  s_zigEnd :: nat
  s_ah :: nat
  s_al :: nat

text \<open>
  \<^verbatim>\<open>for j, comp := range d.comp[:d.nComp] { if cs == comp.c { compIndex = j } }\<close>,
  from \<^verbatim>\<open>compIndex := -1\<close> (here \<open>None\<close>): the last match wins.
\<close>

definition findCompIndex :: "8 word \<Rightarrow> component list \<Rightarrow> nat option" where
  "findCompIndex cs comps =
     foldl (\<lambda>compIndex (j, cp). if cs = comp_c cp then Some j else compIndex)
       None (enumerate 0 comps)"

text \<open>The body of \<^verbatim>\<open>for i := 0; i < nComp; i++\<close> (lines 76 to 109), on \<^verbatim>\<open>scan[:i]\<close> and \<^verbatim>\<open>totalHV\<close>.\<close>

definition scanCompStep ::
  "('b, 's) decoder \<Rightarrow> nat \<Rightarrow> scanComp list \<times> nat \<Rightarrow> error + (scanComp list \<times> nat)" where
  "scanCompStep d i st =
     (let (scan, totalHV) = st;
          cs = d_tmp d ! (1 + 2 * i)
      in case findCompIndex cs (take (d_nComp d) (d_comp d)) of
           None \<Rightarrow> Inl (FormatError ''unknown component selector'')
         | Some compIndex \<Rightarrow>
             if list_ex (\<lambda>s. compIndex = sc_compIndex s) scan
             then Inl (FormatError ''repeated component selector'')
             else
               let totalHV' = totalHV + comp_h (d_comp d ! compIndex) * comp_v (d_comp d ! compIndex);
                   td = drop_bit 4 (d_tmp d ! (2 + 2 * i))
               in if td > maxTh \<or> (d_baseline d \<and> td > 1)
                  then Inl (FormatError ''bad Td value'')
                  else
                    let ta = (d_tmp d ! (2 + 2 * i)) AND 0x0f
                    in if ta > maxTh \<or> (d_baseline d \<and> ta > 1)
                       then Inl (FormatError ''bad Ta value'')
                       else Inr (scan @ [\<lparr>sc_compIndex = compIndex, sc_td = td, sc_ta = ta\<rparr>],
                                 totalHV'))"

text \<open>Lines 133 to 148: the spectral selection and successive approximation bytes.\<close>

definition parseProgression ::
  "('b, 's) decoder \<Rightarrow> nat \<Rightarrow> scanComp list \<Rightarrow> error + scanDesc" where
  "parseProgression d nComp scan =
     (if d_progressive d then
        let zigStart = unat (d_tmp d ! (1 + 2 * nComp));
            zigEnd = unat (d_tmp d ! (2 + 2 * nComp));
            ah = unat (drop_bit 4 (d_tmp d ! (3 + 2 * nComp)));
            al = unat ((d_tmp d ! (3 + 2 * nComp)) AND 0x0f)
        in if (zigStart = 0 \<and> zigEnd \<noteq> 0) \<or> zigStart > zigEnd \<or> blockSize \<le> zigEnd
           then Inl (FormatError ''bad spectral selection bounds'')
           else if zigStart \<noteq> 0 \<and> nComp \<noteq> 1
           then Inl (FormatError ''progressive AC coefficients for more than one component'')
           else if ah \<noteq> 0 \<and> ah \<noteq> al + 1
           then Inl (FormatError ''bad successive approximation values'')
           else Inr \<lparr>s_nComp = nComp, s_scan = scan, s_zigStart = zigStart,
                     s_zigEnd = zigEnd, s_ah = ah, s_al = al\<rparr>
      else Inr \<lparr>s_nComp = nComp, s_scan = scan, s_zigStart = 0,
                s_zigEnd = blockSize - 1, s_ah = 0, s_al = 0\<rparr>)"

text \<open>Lines 57 to 148. \<^verbatim>\<open>d.comp[:d.nComp]\<close> panics when \<^verbatim>\<open>d.nComp\<close> exceeds the array.\<close>

definition scanHeader ::
  "('b, 's) env \<Rightarrow> nat \<Rightarrow> ('b, 's) decoder \<Rightarrow> error + (('b, 's) decoder \<times> scanDesc)" where
  "scanHeader env n d =
     (if d_nComp d = 0 then Inl (FormatError ''missing SOF marker'')
      else if n < 6 \<or> 4 + 2 * d_nComp d < n \<or> n mod 2 \<noteq> 0
      then Inl (FormatError ''SOS has wrong length'')
      else bindE (readFull env n d) (\<lambda>d1.
        let nComp = unat (d_tmp d1 ! 0)
        in if n \<noteq> 4 + 2 * nComp
           then Inl (FormatError ''SOS length inconsistent with number of components'')
           else if length (d_comp d1) < d_nComp d1
           then Inl (Panic ''slice bounds out of range'')
           else bindE (forM [0..<nComp] (scanCompStep d1) ([], 0)) (\<lambda>(scan, totalHV).
             if d_nComp d1 > 1 \<and> totalHV > 10
             then Inl (FormatError ''total sampling factors too large'')
             else bindE (parseProgression d1 nComp scan) (\<lambda>sc. Inr (d1, sc)))))"


subsection \<open>makeImg (lines 13 to 49)\<close>

text \<open>
  Of the image that makeImg allocates only its existence is kept: this decoder emits
  pixels through the callback and never writes to \<^verbatim>\<open>d.img1\<close> or \<^verbatim>\<open>d.img3\<close>.
\<close>

definition makeImg ::
  "nat \<Rightarrow> nat \<Rightarrow> ('b, 's) decoder \<Rightarrow> error + ('b, 's) decoder" where
  "makeImg mxx myy d =
     (if d_nComp d = 1 then Inr (d\<lparr>d_img1 := True\<rparr>)
      else
        let h0 = comp_h (d_comp d ! 0);
            v0 = comp_v (d_comp d ! 0)
        in if comp_h (d_comp d ! 1) = 0 \<or> comp_v (d_comp d ! 1) = 0
           then Inl (Panic ''integer divide by zero'')
           else
             let hRatio = h0 div comp_h (d_comp d ! 1);
                 vRatio = v0 div comp_v (d_comp d ! 1);
                 r = push_bit 4 hRatio OR vRatio
             in if r = 0x11 \<or> r = 0x12 \<or> r = 0x21 \<or> r = 0x22 \<or> r = 0x41 \<or> r = 0x42
                then
                  (if d_nComp d = 4 then
                     let h3 = comp_h (d_comp d ! 3);
                         v3 = comp_v (d_comp d ! 3)
                     in Inr (d\<lparr>d_img3 := True,
                               d_blackPix := replicate (8 * h3 * mxx * 8 * v3 * myy) 0,
                               d_blackStride := 8 * h3 * mxx\<rparr>)
                   else Inr (d\<lparr>d_img3 := True\<rparr>))
                else Inl (Panic ''unreachable''))"

subsection \<open>First pass: the DC coefficient (lines 238 to 254)\<close>

definition decodeDC ::
  "('b, 's) env \<Rightarrow> 8 word \<Rightarrow> nat \<Rightarrow> nat \<Rightarrow> block \<times> 32 word list \<times> ('b, 's) decoder
     \<Rightarrow> error + (block \<times> 32 word list \<times> ('b, 's) decoder)" where
  "decodeDC env td al compIndex st =
     (let (b, dc, d) = st
      in bindE (decodeHuffman env dcTable td d) (\<lambda>(val, d1).
           if val > 16 then Inl (UnsupportedError ''excessive DC component'')
           else bindE (receiveExtend env val d1) (\<lambda>(dcDelta, d2).
             let dc' = dc[compIndex := dc ! compIndex + dcDelta]
             in Inr (b[0 := push_bit al (dc' ! compIndex)], dc', d2))))"

subsection \<open>First pass: the AC coefficients (lines 259 to 293)\<close>

lemma bindE_cong [fundef_cong]:
  "m = m' \<Longrightarrow> (\<And>x. m' = Inr x \<Longrightarrow> f x = f' x) \<Longrightarrow> bindE m f = bindE m' f'"
  by (cases m') (simp_all add: bindE_def)

text \<open>
  Lines 280 to 288, the end-of-band symbol: \<^verbatim>\<open>d.eobRun = uint16(1 << val0)\<close>, then
  \<^verbatim>\<open>val0\<close> more bits are read and \<^verbatim>\<open>or\<close>-ed in when \<^verbatim>\<open>val0 != 0\<close>. The decrement of
  line 288 is in \<open>decodeAC\<close>; \<^verbatim>\<open>refine\<close> has the same lines (449 to 456) without it.
\<close>

definition readEobRun ::
  "('b, 's) env \<Rightarrow> 8 word \<Rightarrow> ('b, 's) decoder \<Rightarrow> error + ('b, 's) decoder" where
  "readEobRun env val0 d =
     (let d1 = d\<lparr>d_eobRun := push_bit (unat val0) 1\<rparr>
      in if val0 \<noteq> 0
         then bindE (decodeBits env (unat val0) d1) (\<lambda>(bits, d2).
                Inr (d2\<lparr>d_eobRun := d_eobRun d2 OR ucast bits\<rparr>))
         else Inr d1)"

text \<open>
  \<^verbatim>\<open>for ; zig <= zigEnd; zig++\<close> of line 261, from the current \<^verbatim>\<open>zig\<close>, on the block and
  the decoder. \<^verbatim>\<open>break\<close> returns the current pair.
\<close>

function decodeAC ::
  "('b, 's) env \<Rightarrow> 8 word \<Rightarrow> nat \<Rightarrow> nat \<Rightarrow> nat \<Rightarrow> block \<times> ('b, 's) decoder
     \<Rightarrow> error + (block \<times> ('b, 's) decoder)" where
  "decodeAC env ta zigEnd al zig st =
     (if zig \<le> zigEnd then
        bindE (decodeHuffman env acTable ta (snd st)) (\<lambda>(val, d1).
          let val0 = drop_bit 4 val;
              val1 = val AND 0x0f
          in if val1 \<noteq> 0 then
               (if zig + unat val0 > zigEnd then Inr (fst st, d1)
                else bindE (receiveExtend env val1 d1) (\<lambda>(ac, d2).
                  decodeAC env ta zigEnd al (zig + unat val0 + 1)
                    ((fst st)[unzig ! (zig + unat val0) := push_bit al ac], d2)))
             else if val0 \<noteq> 0x0f then
               bindE (readEobRun env val0 d1) (\<lambda>d2.
                 Inr (fst st, d2\<lparr>d_eobRun := d_eobRun d2 - 1\<rparr>))
             else decodeAC env ta zigEnd al (zig + 0x0f + 1) (fst st, d1))
      else Inr st)"
  by pat_completeness auto
termination
  by (relation "measure (\<lambda>(env, ta, zigEnd, al, zig, st). zigEnd + 1 - zig)") auto

text \<open>Lines 237 to 294: the first-pass decoding of one block.\<close>

definition decodeFirst ::
  "('b, 's) env \<Rightarrow> scanDesc \<Rightarrow> nat \<Rightarrow> block \<times> 32 word list \<times> ('b, 's) decoder
     \<Rightarrow> error + (block \<times> 32 word list \<times> ('b, 's) decoder)" where
  "decodeFirst env sc i st =
     (let compIndex = sc_compIndex (s_scan sc ! i);
          zigEnd = s_zigEnd sc
      in bindE (if s_zigStart sc = 0
                then bindE (decodeDC env (sc_td (s_scan sc ! i)) (s_al sc) compIndex st)
                       (\<lambda>st1. Inr (s_zigStart sc + 1, st1))
                else Inr (s_zigStart sc, st))
           (\<lambda>(zig, b, dc, d).
              if zig \<le> zigEnd \<and> d_eobRun d > 0
              then Inr (b, dc, d\<lparr>d_eobRun := d_eobRun d - 1\<rparr>)
              else bindE (decodeAC env (sc_ta (s_scan sc ! i)) zigEnd (s_al sc) zig (b, d))
                     (\<lambda>(b', d'). Inr (b', dc, d'))))"

subsection \<open>Refinement passes: refineNonZeroes and refine (lines 417 to 519)\<close>

text \<open>
  refineNonZeroes: the loop of line 496 from the current \<^verbatim>\<open>zig\<close> and \<^verbatim>\<open>nz\<close> (an int32
  that runs below zero when it starts at -1). It returns the final \<^verbatim>\<open>zig\<close>.
\<close>

function refineNonZeroes ::
  "('b, 's) env \<Rightarrow> block \<Rightarrow> nat \<Rightarrow> nat \<Rightarrow> int \<Rightarrow> 32 word \<Rightarrow> ('b, 's) decoder
     \<Rightarrow> error + (nat \<times> block \<times> ('b, 's) decoder)" where
  "refineNonZeroes env b zig zigEnd nz delta d =
     (if zig \<le> zigEnd then
        let u = unzig ! zig
        in if b ! u = 0 then
             (if nz = 0 then Inr (zig, b, d)
              else refineNonZeroes env b (zig + 1) zigEnd (nz - 1) delta d)
           else
             bindE (decodeBit env d) (\<lambda>(bit, d1).
               if \<not> bit then refineNonZeroes env b (zig + 1) zigEnd nz delta d1
               else if 0 \<le> sint (b ! u)
               then refineNonZeroes env (b[u := b ! u + delta]) (zig + 1) zigEnd nz delta d1
               else refineNonZeroes env (b[u := b ! u - delta]) (zig + 1) zigEnd nz delta d1)
      else Inr (zig, b, d))"
  by pat_completeness auto
termination
  by (relation "measure (\<lambda>(env, b, zig, zigEnd, nz, delta, d). zigEnd + 1 - zig)") auto

text \<open>
  Lines 438 to 470 of refine: one Huffman symbol of the refinement loop. The result is
  \<open>None\<close> for \<^verbatim>\<open>break loop\<close> (an end-of-band run was read) and \<open>Some (z, val0)\<close> otherwise.
\<close>

definition refineSymbol ::
  "('b, 's) env \<Rightarrow> 8 word \<Rightarrow> 32 word \<Rightarrow> ('b, 's) decoder
     \<Rightarrow> error + ((32 word \<times> 8 word) option \<times> ('b, 's) decoder)" where
  "refineSymbol env ta delta d =
     bindE (decodeHuffman env acTable ta d) (\<lambda>(val, d1).
       let val0 = drop_bit 4 val;
           val1 = val AND 0x0f
       in if val1 = 0 then
            (if val0 \<noteq> 0x0f
             then bindE (readEobRun env val0 d1) (\<lambda>d2. Inr (None, d2))
             else Inr (Some (0, val0), d1))
          else if val1 = 1 then
            bindE (decodeBit env d1) (\<lambda>(bit, d2).
              Inr (Some (if \<not> bit then - delta else delta, val0), d2))
          else Inl (FormatError ''unexpected Huffman code''))"


declare decodeAC.simps [simp del]
declare refineNonZeroes.simps [simp del]

lemma refineNonZeroes_zig_le:
  "refineNonZeroes env b zig zigEnd nz delta d = Inr (zig', b', d') \<Longrightarrow> zig \<le> zig'"
proof (induction env b zig zigEnd nz delta d rule: refineNonZeroes.induct)
  case (1 env b zig zigEnd nz delta d)
  from "1.prems" "1.IH" show ?case
    apply (subst (asm) refineNonZeroes.simps)
    apply (auto simp: bindE_def Let_def split: if_splits sum.splits prod.splits)
      apply (blast dest: Suc_leD)+
    done
qed

text \<open>
  The loop of line 437 (\<^verbatim>\<open>loop: for ; zig <= zigEnd; zig++\<close>), from the current \<^verbatim>\<open>zig\<close>.
  It returns \<^verbatim>\<open>zig\<close>, the block and the decoder as they are when the loop is left,
  by its condition or by \<^verbatim>\<open>break loop\<close>.
\<close>

function refineLoop ::
  "('b, 's) env \<Rightarrow> 8 word \<Rightarrow> nat \<Rightarrow> 32 word \<Rightarrow> nat \<Rightarrow> block \<times> ('b, 's) decoder
     \<Rightarrow> error + (nat \<times> block \<times> ('b, 's) decoder)" where
  "refineLoop env ta zigEnd delta zig st =
     (if zig \<le> zigEnd then
        bindE (refineSymbol env ta delta (snd st)) (\<lambda>(r, d1).
          case r of
            None \<Rightarrow> Inr (zig, fst st, d1)
          | Some (z, val0) \<Rightarrow>
              bindE (refineNonZeroes env (fst st) zig zigEnd (uint val0) delta d1)
                (\<lambda>(zig', b', d2).
                  if zig' > zigEnd then Inl (FormatError ''too many coefficients'')
                  else refineLoop env ta zigEnd delta (zig' + 1)
                         (if z \<noteq> 0 then b'[unzig ! zig' := z] else b', d2)))
      else Inr (zig, fst st, snd st))"
  by pat_completeness auto
termination
  apply (relation "measure (\<lambda>(env, ta, zigEnd, delta, zig, st). zigEnd + 1 - zig)")
   apply simp
  apply (auto dest: refineNonZeroes_zig_le)
  done

declare refineLoop.simps [simp del]

text \<open>refine (lines 417 to 491). \<^verbatim>\<open>h\<close> is \<^verbatim>\<open>&d.huff[acTable][ta]\<close>, given by \<open>ta\<close>.\<close>

definition refine ::
  "('b, 's) env \<Rightarrow> block \<Rightarrow> 8 word \<Rightarrow> nat \<Rightarrow> nat \<Rightarrow> 32 word \<Rightarrow> ('b, 's) decoder
     \<Rightarrow> error + (block \<times> ('b, 's) decoder)" where
  "refine env b ta zigStart zigEnd delta d =
     (if zigStart = 0 then
        (if zigEnd \<noteq> 0 then Inl (Panic ''unreachable'')
         else bindE (decodeBit env d) (\<lambda>(bit, d1).
                Inr (if bit then b[0 := b ! 0 OR delta] else b, d1)))
      else
        bindE (if d_eobRun d = 0 then refineLoop env ta zigEnd delta zigStart (b, d)
               else Inr (zigStart, b, d))
          (\<lambda>(zig, b1, d1).
             if d_eobRun d1 > 0
             then bindE (refineNonZeroes env b1 zig zigEnd (- 1) delta
                           (d1\<lparr>d_eobRun := d_eobRun d1 - 1\<rparr>))
                    (\<lambda>(zig', b2, d2). Inr (b2, d2))
             else Inr (b1, d1)))"


subsection \<open>reconstructBlock (lines 554 to 577)\<close>

text \<open>Lines 556 to 558: \<^verbatim>\<open>for zig := 0; zig < blockSize; zig++ { b[unzig[zig]] *= qt[zig] }\<close>.\<close>

definition dequantize :: "block \<Rightarrow> block \<Rightarrow> block" where
  "dequantize qt b =
     foldl (\<lambda>b zig. b[unzig ! zig := b ! (unzig ! zig) * qt ! zig]) b [0..<blockSize]"

text \<open>Lines 565 to 573: the level shift and the clip of one sample, then \<^verbatim>\<open>uint8(c)\<close>.\<close>

definition levelShift :: "32 word \<Rightarrow> 8 word" where
  "levelShift c =
     (if sint c < - 128 then ucast (0 :: 32 word)
      else if sint c > 127 then ucast (255 :: 32 word)
      else ucast (c + 128))"

text \<open>
  reconstructBlock changes the block behind \<^verbatim>\<open>b\<close> and returns the package buffer
  \<^verbatim>\<open>reconstructBlockBuf\<close>, all 64 bytes of which it has written; the result is that
  block and those bytes. \<^verbatim>\<open>d.quant[tq]\<close> panics when \<^verbatim>\<open>tq\<close> is outside the array.
\<close>

definition reconstructBlock ::
  "('b, 's) env \<Rightarrow> ('b, 's) decoder \<Rightarrow> block \<Rightarrow> nat \<Rightarrow> nat \<Rightarrow> nat
     \<Rightarrow> error + (block \<times> 8 word list)" where
  "reconstructBlock env d b bx byy compIndex =
     (let tq = unat (comp_tq (d_comp d ! compIndex))
      in if length (d_quant d) \<le> tq then Inl (Panic ''index out of range'')
         else
           let b1 = dequantize (d_quant d ! tq) b;
               b2 = e_idct env b1
           in Inr (b2, concat (map (\<lambda>y. map (\<lambda>x. levelShift (b2 ! (y * 8 + x))) [0..<8])
                                 [0..<8])))"

subsection \<open>The tile buffer and the callback (lines 313 to 365)\<close>

text \<open>
  One invocation of the package variable \<^verbatim>\<open>callback\<close>: the 256 values of
  \<^verbatim>\<open>callbackBuf[:8*8*4]\<close> at the time of the call and the six int16 arguments.
\<close>

record call =
  cb_data :: "16 word list"
  cb_x :: "16 word"
  cb_y :: "16 word"
  cb_w :: "16 word"
  cb_h :: "16 word"
  cb_width :: "16 word"
  cb_height :: "16 word"

text \<open>Lines 315 to 323, case 0 (Y).\<close>

definition putY :: "8 word list \<Rightarrow> 8 word list \<Rightarrow> nat \<Rightarrow> nat \<Rightarrow> 8 word list" where
  "putY buf dst bx byy =
     (let bx8 = bx * 8;
          by8 = byy * 8;
          bx16 = bx8 mod 16;
          by16 = by8 mod 16
      in foldl (\<lambda>buf (cy, cx).
                  buf[((cy + by16) * 16 + (cx + bx16)) * 3 + 0 := dst ! (cy * 8 + cx)])
           buf (List.product [0..<8] [0..<8]))"

text \<open>Lines 325 to 337 (Cb, \<open>k = 1\<close>) and 339 to 351 (Cr, \<open>k = 2\<close>): each sample fills 2 x 2 pixels.\<close>

definition putC :: "nat \<Rightarrow> 8 word list \<Rightarrow> 8 word list \<Rightarrow> nat \<Rightarrow> nat \<Rightarrow> 8 word list" where
  "putC k buf dst bx byy =
     (let bx8 = bx * 8 * 2;
          by8 = byy * 8 * 2;
          bx16 = bx8 mod 16;
          by16 = by8 mod 16
      in foldl (\<lambda>buf (cy, cx).
                  buf[((cy * 2 + 0 + by16) * 16 + (cx * 2 + 0 + bx16)) * 3 + k := dst ! (cy * 8 + cx),
                      ((cy * 2 + 0 + by16) * 16 + (cx * 2 + 1 + bx16)) * 3 + k := dst ! (cy * 8 + cx),
                      ((cy * 2 + 1 + by16) * 16 + (cx * 2 + 0 + bx16)) * 3 + k := dst ! (cy * 8 + cx),
                      ((cy * 2 + 1 + by16) * 16 + (cx * 2 + 1 + bx16)) * 3 + k := dst ! (cy * 8 + cx)])
           buf (List.product [0..<8] [0..<8]))"

text \<open>Lines 359 to 361: the 5-6-5 packing of one pixel.\<close>

definition pack565 :: "8 word \<Rightarrow> 8 word \<Rightarrow> 8 word \<Rightarrow> 16 word" where
  "pack565 r g b =
     (push_bit 8 (ucast r) AND 0xF800)
     + drop_bit 5 (push_bit 8 (ucast g) AND 0xFC00)
     + drop_bit 11 (push_bit 8 (ucast b) AND 0xF800)"

text \<open>Lines 353 to 363: the 256 values written to \<^verbatim>\<open>callbackBuf\<close>.\<close>

definition convertCell :: "('b, 's) env \<Rightarrow> 8 word list \<Rightarrow> 16 word list" where
  "convertCell env buf =
     concat (map (\<lambda>cy. map (\<lambda>cx.
         let yy = buf ! ((cy * 16 + cx) * 3 + 0);
             cb = buf ! ((cy * 16 + cx) * 3 + 1);
             cr = buf ! ((cy * 16 + cx) * 3 + 2);
             (r, g, b) = e_YCbCrToRGB env yy cb cr
         in pack565 r g b) [0..<16]) [0..<16])"

text \<open>Line 364: the arguments of the call.\<close>

definition callbackCall ::
  "('b, 's) env \<Rightarrow> ('b, 's) decoder \<Rightarrow> 8 word list \<Rightarrow> nat \<Rightarrow> nat \<Rightarrow> call" where
  "callbackCall env d buf bx byy =
     (let bx8 = bx * 8 * 2;
          by8 = byy * 8 * 2;
          bx16 = bx8 mod 16;
          by16 = by8 mod 16
      in \<lparr>cb_data = convertCell env buf,
          cb_x = of_nat (bx8 - bx16), cb_y = of_nat (by8 - by16),
          cb_w = 16, cb_h = 16,
          cb_width = of_nat (d_width d), cb_height = of_nat (d_height d)\<rparr>)"

subsection \<open>processSOS: the loops (lines 169 to 412)\<close>

text \<open>
  The state of the loops: the decoder, the locals \<^verbatim>\<open>dc\<close>, \<^verbatim>\<open>blockCount\<close>, \<^verbatim>\<open>mcu\<close> and
  \<^verbatim>\<open>expectedRST\<close>, the package variable \<^verbatim>\<open>processSOSBuf\<close>, and the calls of \<^verbatim>\<open>callback\<close>
  made so far, oldest first. The locals \<^verbatim>\<open>b\<close>, \<^verbatim>\<open>bx\<close> and \<^verbatim>\<open>by\<close> are assigned in every
  iteration before they are read.
\<close>

record ('b, 's) scanState =
  st_d :: "('b, 's) decoder"
  st_dc :: "32 word list"
  st_blockCount :: nat
  st_mcu :: nat
  st_expectedRST :: "8 word"
  st_processSOSBuf :: "8 word list"
  st_calls :: "call list"

text \<open>
  Lines 225 to 230: the coefficients of the block so far. Reading
  \<^verbatim>\<open>d.progCoeffs[compIndex][by*mxx*hi+bx]\<close> panics outside the slice.
\<close>

definition loadBlock :: "('b, 's) decoder \<Rightarrow> nat \<Rightarrow> nat \<Rightarrow> error + block" where
  "loadBlock d compIndex k =
     (if d_progressive d
      then (if k < length (d_progCoeffs d ! compIndex)
            then Inr (d_progCoeffs d ! compIndex ! k)
            else Inl (Panic ''index out of range''))
      else Inr (replicate blockSize 0))"

text \<open>Lines 232 to 295: a refinement pass when \<^verbatim>\<open>ah != 0\<close>, the first pass otherwise.\<close>

definition decodeBlock ::
  "('b, 's) env \<Rightarrow> scanDesc \<Rightarrow> nat \<Rightarrow> block \<times> 32 word list \<times> ('b, 's) decoder
     \<Rightarrow> error + (block \<times> 32 word list \<times> ('b, 's) decoder)" where
  "decodeBlock env sc i st =
     (let (b, dc, d) = st
      in if s_ah sc \<noteq> 0
         then bindE (refine env b (sc_ta (s_scan sc ! i)) (s_zigStart sc) (s_zigEnd sc)
                       (push_bit (s_al sc) 1) d)
                (\<lambda>(b', d'). Inr (b', dc, d'))
         else decodeFirst env sc i (b, dc, d))"

text \<open>
  Lines 313 to 365: \<^verbatim>\<open>switch compIndex\<close>. The samples \<open>dst\<close> go into the tile buffer;
  for component 2 the cell is converted and \<^verbatim>\<open>callback\<close> is called.
\<close>

definition assembleTile ::
  "('b, 's) env \<Rightarrow> nat \<Rightarrow> 8 word list \<Rightarrow> nat \<Rightarrow> nat \<Rightarrow> ('b, 's) scanState
     \<Rightarrow> ('b, 's) scanState" where
  "assembleTile env compIndex dst bx byy st =
     (if compIndex = 0
      then st\<lparr>st_processSOSBuf := putY (st_processSOSBuf st) dst bx byy\<rparr>
      else if compIndex = 1
      then st\<lparr>st_processSOSBuf := putC 1 (st_processSOSBuf st) dst bx byy\<rparr>
      else if compIndex = 2
      then
        let buf = putC 2 (st_processSOSBuf st) dst bx byy
        in st\<lparr>st_processSOSBuf := buf,
               st_calls := st_calls st @ [callbackCall env (st_d st) buf bx byy]\<rparr>
      else st)"

text \<open>
  Lines 225 to 366: the work on the block at \<open>(bx, byy)\<close> of the \<open>i\<close>-th scan component.
\<close>

definition processBlock ::
  "('b, 's) env \<Rightarrow> scanDesc \<Rightarrow> nat \<Rightarrow> nat \<Rightarrow> nat \<Rightarrow> nat \<Rightarrow> ('b, 's) scanState
     \<Rightarrow> error + ('b, 's) scanState" where
  "processBlock env sc mxx i bx byy st =
     (let d = st_d st;
          compIndex = sc_compIndex (s_scan sc ! i);
          hi = comp_h (d_comp d ! compIndex);
          k = byy * mxx * hi + bx
      in bindE (loadBlock d compIndex k) (\<lambda>b.
         bindE (decodeBlock env sc i (b, st_dc st, d)) (\<lambda>(b', dc', d').
           if d_progressive d'
           then Inr (st\<lparr>st_d := d'\<lparr>d_progCoeffs :=
                               (d_progCoeffs d')[compIndex :=
                                  (d_progCoeffs d' ! compIndex)[k := b']]\<rparr>,
                        st_dc := dc'\<rparr>)
           else bindE (reconstructBlock env d' b' bx byy compIndex) (\<lambda>(b'', dst).
                  Inr (assembleTile env compIndex dst bx byy
                         (st\<lparr>st_d := d', st_dc := dc'\<rparr>))))))"

text \<open>
  Lines 186 to 367: the body of \<^verbatim>\<open>for j := 0; j < hi*vi; j++\<close>. It finds the block
  (lines 212 to 223) and works on it; \<^verbatim>\<open>continue\<close> at line 221 leaves the body.
\<close>

definition blockStep ::
  "('b, 's) env \<Rightarrow> scanDesc \<Rightarrow> nat \<Rightarrow> nat \<Rightarrow> nat \<Rightarrow> nat \<Rightarrow> nat \<Rightarrow> ('b, 's) scanState
     \<Rightarrow> error + ('b, 's) scanState" where
  "blockStep env sc mxx my mx i j st =
     (let compIndex = sc_compIndex (s_scan sc ! i);
          hi = comp_h (d_comp (st_d st) ! compIndex);
          vi = comp_v (d_comp (st_d st) ! compIndex)
      in if s_nComp sc \<noteq> 1
         then processBlock env sc mxx i (hi * mx + j mod hi) (vi * my + j div hi) st
         else
           let q = mxx * hi;
               bx = st_blockCount st mod q;
               byy = st_blockCount st div q;
               st1 = st\<lparr>st_blockCount := st_blockCount st + 1\<rparr>
           in if bx * 8 \<ge> d_width (st_d st) \<or> byy * 8 \<ge> d_height (st_d st)
              then Inr st1
              else processBlock env sc mxx i bx byy st1)"

text \<open>Lines 182 to 368: \<^verbatim>\<open>for i := 0; i < nComp; i++\<close> with its inner loop over \<^verbatim>\<open>j\<close>.\<close>

definition mcuBlocks ::
  "('b, 's) env \<Rightarrow> scanDesc \<Rightarrow> nat \<Rightarrow> nat \<Rightarrow> nat \<Rightarrow> ('b, 's) scanState
     \<Rightarrow> error + ('b, 's) scanState" where
  "mcuBlocks env sc mxx my mx st =
     forM [0..<s_nComp sc] (\<lambda>i st.
       let compIndex = sc_compIndex (s_scan sc ! i);
           hi = comp_h (d_comp (st_d st) ! compIndex);
           vi = comp_v (d_comp (st_d st) ! compIndex)
       in forM [0..<hi * vi] (blockStep env sc mxx my mx i) st) st"

text \<open>Lines 369 to 408: the MCU is counted and a restart marker is read when one is due.\<close>

definition restartStep ::
  "('b, 's) env \<Rightarrow> nat \<Rightarrow> nat \<Rightarrow> ('b, 's) scanState \<Rightarrow> error + ('b, 's) scanState" where
  "restartStep env mxx myy st0 =
     (let st = st0\<lparr>st_mcu := st_mcu st0 + 1\<rparr>;
          d = st_d st
      in if d_ri d > 0 \<and> st_mcu st mod d_ri d = 0 \<and> st_mcu st < mxx * myy
         then
           bindE (readFull env 2 d) (\<lambda>d1.
           bindE (if d_tmp d1 ! 0 = 0xff \<and> d_tmp d1 ! 1 = 0x00
                  then readFull env 2 d1 else Inr d1) (\<lambda>d2.
             if d_tmp d2 ! 0 \<noteq> 0xff \<or> d_tmp d2 ! 1 \<noteq> st_expectedRST st
             then Inl (FormatError ''bad RST marker'')
             else
               let e1 = st_expectedRST st + 1;
                   e2 = (if e1 = rst7Marker + 1 then rst0Marker else e1)
               in Inr (st\<lparr>st_d := d2\<lparr>d_bits := e_bits0 env, d_eobRun := 0\<rparr>,
                          st_dc := replicate maxComponents 0,
                          st_expectedRST := e2\<rparr>)))
         else Inr st)"

text \<open>Lines 182 to 408: one MCU, its blocks and then the restart marker when due.\<close>

definition mcuStep ::
  "('b, 's) env \<Rightarrow> scanDesc \<Rightarrow> nat \<Rightarrow> nat \<Rightarrow> nat \<Rightarrow> nat \<Rightarrow> ('b, 's) scanState
     \<Rightarrow> error + ('b, 's) scanState" where
  "mcuStep env sc mxx myy my mx st =
     bindE (mcuBlocks env sc mxx my mx st) (restartStep env mxx myy)"

text \<open>Lines 180 to 410: the loops over the MCU rows and columns.\<close>

definition mcuLoop ::
  "('b, 's) env \<Rightarrow> scanDesc \<Rightarrow> nat \<Rightarrow> nat \<Rightarrow> ('b, 's) scanState
     \<Rightarrow> error + ('b, 's) scanState" where
  "mcuLoop env sc mxx myy st =
     forM [0..<myy] (\<lambda>my. forM [0..<mxx] (mcuStep env sc mxx myy my)) st"

text \<open>
  The first \<open>k\<close> MCUs of those loops: the \<open>m\<close>-th MCU is at column \<open>m mod mxx\<close> of row
  \<open>m div mxx\<close>. The result is the state in which the loops enter MCU number \<open>k\<close>
  (\<open>mcuLoop_prefix\<close> below: all \<open>mxx * myy\<close> of them are \<open>mcuLoop\<close>).
\<close>

definition mcuPrefix ::
  "('b, 's) env \<Rightarrow> scanDesc \<Rightarrow> nat \<Rightarrow> nat \<Rightarrow> nat \<Rightarrow> ('b, 's) scanState
     \<Rightarrow> error + ('b, 's) scanState" where
  "mcuPrefix env sc mxx myy k st =
     forM [0..<k] (\<lambda>m. mcuStep env sc mxx myy (m div mxx) (m mod mxx)) st"

text \<open>Lines 160 to 167: the coefficient store of each scan component, made when nil.\<close>

definition allocProgCoeffs ::
  "scanDesc \<Rightarrow> nat \<Rightarrow> nat \<Rightarrow> ('b, 's) decoder \<Rightarrow> ('b, 's) decoder" where
  "allocProgCoeffs sc mxx myy d =
     foldl (\<lambda>d i.
        let compIndex = sc_compIndex (s_scan sc ! i)
        in if d_progCoeffs d ! compIndex = []
           then d\<lparr>d_progCoeffs := (d_progCoeffs d)[compIndex :=
                    replicate (mxx * myy * comp_h (d_comp d ! compIndex)
                                 * comp_v (d_comp d ! compIndex))
                      (replicate blockSize 0)]\<rparr>
           else d) d [0..<s_nComp sc]"

text \<open>
  Lines 150 to 179: the MCU counts, the image, the coefficient store, the reset of the
  bit reader and the initial values of the locals. The package variable
  \<^verbatim>\<open>processSOSBuf\<close> and the calls made so far come in as \<open>buf\<close> and \<open>calls\<close>.
\<close>

definition scanSetup ::
  "('b, 's) env \<Rightarrow> scanDesc \<Rightarrow> ('b, 's) decoder \<Rightarrow> 8 word list \<Rightarrow> call list
     \<Rightarrow> error + (nat \<times> nat \<times> ('b, 's) scanState)" where
  "scanSetup env sc d buf calls =
     (let h0 = comp_h (d_comp d ! 0);
          v0 = comp_v (d_comp d ! 0)
      in if h0 = 0 \<or> v0 = 0 then Inl (Panic ''integer divide by zero'')
         else
           let mxx = (d_width d + 8 * h0 - 1) div (8 * h0);
               myy = (d_height d + 8 * v0 - 1) div (8 * v0)
           in bindE (if \<not> d_img1 d \<and> \<not> d_img3 d then makeImg 1 1 d else Inr d) (\<lambda>d1.
                let d2 = (if d_progressive d1 then allocProgCoeffs sc mxx myy d1 else d1);
                    d3 = d2\<lparr>d_bits := e_bits0 env\<rparr>
                in Inr (mxx, myy,
                        \<lparr>st_d = d3, st_dc = replicate maxComponents 0, st_blockCount = 0,
                         st_mcu = 0, st_expectedRST = rst0Marker,
                         st_processSOSBuf = buf, st_calls = calls\<rparr>)))"

text \<open>
  processSOS (lines 56 to 413). It returns the decoder, \<^verbatim>\<open>processSOSBuf\<close> and the calls
  of \<^verbatim>\<open>callback\<close>; an error or a panic returns \<open>Inl\<close>.
\<close>

definition processSOS ::
  "('b, 's) env \<Rightarrow> nat \<Rightarrow> ('b, 's) decoder \<Rightarrow> 8 word list \<Rightarrow> call list
     \<Rightarrow> error + (('b, 's) decoder \<times> 8 word list \<times> call list)" where
  "processSOS env n d buf calls =
     bindE (scanHeader env n d) (\<lambda>(d1, sc).
     bindE (scanSetup env sc d1 buf calls) (\<lambda>(mxx, myy, st0).
     bindE (mcuLoop env sc mxx myy st0) (\<lambda>st.
       Inr (st_d st, st_processSOSBuf st, st_calls st))))"


subsection \<open>A scripted reader, to run the decoder on concrete inputs\<close>

text \<open>
  One instance of the collaborators: the byte source is a script of the results that
  the primitives return, one token for each call, and the bit-reader state counts the
  entropy primitives called since it was last reset. A primitive that finds no token
  of its kind fails. The inverse DCT and the colour conversion are identities.
\<close>

datatype tok =
    THuff "8 word"
  | TBit bool
  | TBits "32 word"
  | TExt "32 word"
  | TBytes "8 word list"

definition scriptEnv :: "(nat, tok list) env" where
  "scriptEnv =
     \<lparr>e_bits0 = 0,
      e_readFull = (\<lambda>n (b, s).
         case s of TBytes bs # r \<Rightarrow> if length bs = n then Inr (bs, b, r) else Inl (LowerError 1)
                 | _ \<Rightarrow> Inl (LowerError 1)),
      e_decodeHuffman = (\<lambda>tc th (b, s).
         case s of THuff x # r \<Rightarrow> Inr (x, Suc b, r) | _ \<Rightarrow> Inl (LowerError 2)),
      e_decodeBit = (\<lambda>(b, s).
         case s of TBit x # r \<Rightarrow> Inr (x, Suc b, r) | _ \<Rightarrow> Inl (LowerError 3)),
      e_decodeBits = (\<lambda>n (b, s).
         case s of TBits x # r \<Rightarrow> Inr (x, Suc b, r) | _ \<Rightarrow> Inl (LowerError 4)),
      e_receiveExtend = (\<lambda>t (b, s).
         case s of TExt x # r \<Rightarrow> Inr (x, Suc b, r) | _ \<Rightarrow> Inl (LowerError 5)),
      e_idct = (\<lambda>b. b),
      e_YCbCrToRGB = (\<lambda>yy cb cr. (yy, cb, cr))\<rparr>"

text \<open>
  A decoder after the frame header, before the first scan: \<open>w\<close> by \<open>h\<close> pixels, the
  components \<open>cs\<close>, no restart interval, quantization tables of ones, script \<open>s\<close>.
\<close>

definition comp4 :: "component list \<Rightarrow> component list" where
  "comp4 cs = take maxComponents
     (cs @ replicate maxComponents \<lparr>comp_h = 0, comp_v = 0, comp_c = 0, comp_tq = 0\<rparr>)"

definition newDecoder ::
  "bool \<Rightarrow> nat \<Rightarrow> nat \<Rightarrow> component list \<Rightarrow> tok list \<Rightarrow> (nat, tok list) decoder" where
  "newDecoder prog w h cs s =
     \<lparr>d_bits = 0, d_src = s, d_width = w, d_height = h, d_img1 = False, d_img3 = False,
      d_blackPix = [], d_blackStride = 0, d_ri = 0, d_nComp = length cs,
      d_baseline = \<not> prog, d_progressive = prog, d_eobRun = 0,
      d_comp = comp4 cs,
      d_progCoeffs = replicate maxComponents [],
      d_quant = replicate 4 (replicate blockSize 1),
      d_tmp = replicate (2 * blockSize) 0\<rparr>"


definition mkComp :: "nat \<Rightarrow> nat \<Rightarrow> 8 word \<Rightarrow> component" where
  "mkComp h v c = \<lparr>comp_h = h, comp_v = v, comp_c = c, comp_tq = 0\<rparr>"




text \<open>A block with three coefficients set, for the examples.\<close>

definition exBlock :: block where
  "exBlock = (replicate blockSize 0)[0 := 1000, 1 := - 1000, 8 := 5]"

text \<open>The scan descriptor of a sequential scan of one component.\<close>

definition exScanSeq :: scanDesc where
  "exScanSeq = \<lparr>s_nComp = 1, s_scan = [\<lparr>sc_compIndex = 0, sc_td = 0, sc_ta = 0\<rparr>],
                 s_zigStart = 0, s_zigEnd = 63, s_ah = 0, s_al = 0\<rparr>"

text \<open>
  Two blocks for the refinement examples: the coefficient at zig-zag index 1 is 4, and
  it is the largest int32.
\<close>

definition exBlockRef :: block where
  "exBlockRef = (replicate blockSize 0)[1 := 4]"

definition exBlockMax :: block where
  "exBlockMax = (replicate blockSize 0)[1 := 0x7fffffff]"

text \<open>
  \<open>corrected delta x y\<close>: \<open>y\<close> is \<open>x\<close>, or \<open>x\<close> is not zero and \<open>y\<close> is what line 512 to 516
  make of \<open>x\<close> (\<open>x + delta\<close> for \<^verbatim>\<open>b[u] >= 0\<close>, else \<open>x - delta\<close>, in int32 arithmetic).
\<close>

definition corrected :: "32 word \<Rightarrow> 32 word \<Rightarrow> 32 word \<Rightarrow> bool" where
  "corrected delta x y \<longleftrightarrow>
     y = x \<or> (x \<noteq> 0 \<and> y = (if 0 \<le> sint x then x + delta else x - delta))"

text \<open>
  \<open>correct1 delta bit x\<close>: what lines 509 to 516 of refineNonZeroes make of a coefficient
  \<open>x\<close> that is not zero, for the bit that decodeBit returned: \<open>x\<close> itself for a clear
  bit, \<open>x + delta\<close> for \<^verbatim>\<open>b[u] >= 0\<close> and \<open>x - delta\<close> otherwise, in int32 arithmetic.
\<close>

definition correct1 :: "32 word \<Rightarrow> bool \<Rightarrow> 32 word \<Rightarrow> 32 word" where
  "correct1 delta bt x = (if \<not> bt then x else if 0 \<le> sint x then x + delta else x - delta)"

text \<open>
  \<open>correctedBy env delta x y\<close>: \<open>y\<close> is the correction of \<open>x\<close> for a bit that decodeBit
  returned in some state of the decoder.
\<close>

definition correctedBy :: "('b, 's) env \<Rightarrow> 32 word \<Rightarrow> 32 word \<Rightarrow> 32 word \<Rightarrow> bool" where
  "correctedBy env delta x y \<longleftrightarrow>
     (\<exists>d bt d1. decodeBit env d = Inr (bt, d1) \<and> y = correct1 delta bt x)"


text \<open>
  The descriptor of a first DC scan of a progressive image with one component, and a
  16 x 8 image of two MCUs with the restart interval 1: the script holds the DC symbol
  and its bits for the first block, the bytes of RST0, and the same for the second block.
\<close>

definition exScanDC :: scanDesc where
  "exScanDC = \<lparr>s_nComp = 1, s_scan = [\<lparr>sc_compIndex = 0, sc_td = 0, sc_ta = 0\<rparr>],
                s_zigStart = 0, s_zigEnd = 0, s_ah = 0, s_al = 0\<rparr>"

definition exGrayRst :: "(nat, tok list) decoder" where
  "exGrayRst =
     (newDecoder True 16 8 [mkComp 1 1 1]
        [THuff 2, TExt 3, TBytes [0xff, 0xd0], THuff 0, TExt 0])
     \<lparr>d_ri := 1\<rparr>"

text \<open>
  The descriptors of a first AC scan of component 0 and of an interleaved first DC scan
  of three components, and a frame of three components with the luma sampled 2 x 2
  (4:2:0), \<open>w\<close> by \<open>h\<close> pixels.
\<close>

definition exScanAC :: scanDesc where
  "exScanAC = \<lparr>s_nComp = 1, s_scan = [\<lparr>sc_compIndex = 0, sc_td = 0, sc_ta = 0\<rparr>],
                s_zigStart = 1, s_zigEnd = 63, s_ah = 0, s_al = 0\<rparr>"

definition exScanInter :: scanDesc where
  "exScanInter = \<lparr>s_nComp = 3,
                   s_scan = [\<lparr>sc_compIndex = 0, sc_td = 0, sc_ta = 0\<rparr>,
                             \<lparr>sc_compIndex = 1, sc_td = 0, sc_ta = 0\<rparr>,
                             \<lparr>sc_compIndex = 2, sc_td = 0, sc_ta = 0\<rparr>],
                   s_zigStart = 0, s_zigEnd = 0, s_ah = 0, s_al = 0\<rparr>"

definition ex420 :: "bool \<Rightarrow> nat \<Rightarrow> nat \<Rightarrow> tok list \<Rightarrow> (nat, tok list) decoder" where
  "ex420 prog w h s = newDecoder prog w h [mkComp 2 2 1, mkComp 1 1 2, mkComp 1 1 3] s"

text \<open>
  The collaborators with \<open>h\<close> in the place of the Huffman decoder of the AC tables. A
  computation that gives the same result for every \<open>h\<close> decodes no AC Huffman symbol.
\<close>

definition withAC ::
  "(8 word \<Rightarrow> 'b \<times> 's \<Rightarrow> error + (8 word \<times> 'b \<times> 's)) \<Rightarrow> ('b, 's) env \<Rightarrow> ('b, 's) env" where
  "withAC h env =
     env\<lparr>e_decodeHuffman := (\<lambda>tc. if tc = acTable then h else e_decodeHuffman env tc)\<rparr>"



subsection \<open>What a scan leaves unchanged\<close>

text \<open>
  \<open>dframe d d'\<close>: the decoders agree on every field but the bit reader, the byte source
  and \<^verbatim>\<open>eobRun\<close>, which the entropy primitives and the block decoders work on.
  \<open>sframe d d'\<close>: they agree on what the frame header and the tables have set.
\<close>

definition dframe :: "('b, 's) decoder \<Rightarrow> ('b, 's) decoder \<Rightarrow> bool" where
  "dframe d d' \<longleftrightarrow>
     d_width d' = d_width d \<and> d_height d' = d_height d \<and> d_img1 d' = d_img1 d
     \<and> d_img3 d' = d_img3 d \<and> d_blackPix d' = d_blackPix d
     \<and> d_blackStride d' = d_blackStride d \<and> d_ri d' = d_ri d \<and> d_nComp d' = d_nComp d
     \<and> d_baseline d' = d_baseline d \<and> d_progressive d' = d_progressive d
     \<and> d_comp d' = d_comp d \<and> d_progCoeffs d' = d_progCoeffs d
     \<and> d_quant d' = d_quant d \<and> d_tmp d' = d_tmp d"

definition sframe :: "('b, 's) decoder \<Rightarrow> ('b, 's) decoder \<Rightarrow> bool" where
  "sframe d d' \<longleftrightarrow>
     d_width d' = d_width d \<and> d_height d' = d_height d \<and> d_ri d' = d_ri d
     \<and> d_nComp d' = d_nComp d \<and> d_baseline d' = d_baseline d
     \<and> d_progressive d' = d_progressive d \<and> d_comp d' = d_comp d \<and> d_quant d' = d_quant d"

text \<open>
  The invariant of the MCU loops at the entry of MCU number \<open>k\<close>, for the restart
  interval \<open>r\<close> and \<open>n\<close> MCUs in all.
\<close>

definition restartInv ::
  "('b, 's) env \<Rightarrow> ('b, 's) decoder \<Rightarrow> nat \<Rightarrow> nat \<Rightarrow> ('b, 's) scanState \<Rightarrow> bool" where
  "restartInv env d n k st \<longleftrightarrow>
     st_mcu st = k \<and> sframe d (st_d st)
     \<and> (0 < d_ri d \<and> k < n \<longrightarrow>
          st_expectedRST st = rst0Marker + of_nat (k div d_ri d mod 8))
     \<and> (0 < d_ri d \<and> k mod d_ri d = 0 \<and> k < n \<longrightarrow>
          st_dc st = replicate maxComponents 0 \<and> d_bits (st_d st) = e_bits0 env
          \<and> (0 < k \<longrightarrow> d_eobRun (st_d st) = 0))"

section \<open>Basic facts\<close>

lemma bindE_Inl [simp]: "bindE (Inl e) f = Inl e"
  by (simp add: bindE_def)

lemma bindE_Inr [simp]: "bindE (Inr x) f = f x"
  by (simp add: bindE_def)

lemma bindE_eq_Inr:
  "bindE m f = Inr y \<longleftrightarrow> (\<exists>x. m = Inr x \<and> f x = Inr y)"
  by (cases m) simp_all



lemma bindE_mid_Inr:
  "bindE m (\<lambda>(x, y). Inr (x, c, y)) = Inr (x', c', y') \<Longrightarrow> m = Inr (x', y') \<and> c' = c"
  by (cases m) auto

lemma case_InrE:
  assumes "case m of Inl e \<Rightarrow> False | Inr x \<Rightarrow> P x"
  obtains x where "m = Inr x" "P x"
  using assms by (cases m) auto

lemma parseProgression_nComp:
  "parseProgression d nComp scan = Inr sc \<Longrightarrow> s_nComp sc = nComp \<and> s_scan sc = scan"
  by (auto simp: parseProgression_def Let_def split: if_splits)

section \<open>The scan header\<close>

subsection \<open>The length of the SOS payload\<close>

text \<open>
  Claim C8, as amended. The scan header is accepted only when the payload length \<open>n\<close>
  is exactly \<open>4 + 2 * componentCount\<close>, where \<open>componentCount\<close> is the first payload byte;
  this holds for baseline and for progressive images alike, the three bytes of spectral
  selection and successive approximation being part of the 4. Whenever the payload can
  be read and \<open>n\<close> is any other length, the header is rejected with a FormatError.
\<close>

theorem C8_sos_length:
  "(scanHeader env n d = Inr (d', sc) \<longrightarrow>
      n = 4 + 2 * s_nComp sc \<and> s_nComp sc = unat (d_tmp d' ! 0))
   \<and> (readFull env n d = Inr d1 \<and> n \<noteq> 4 + 2 * unat (d_tmp d1 ! 0) \<longrightarrow>
      (\<exists>msg. scanHeader env n d = Inl (FormatError msg)))"
proof -
  have accept: "n = 4 + 2 * s_nComp sc \<and> s_nComp sc = unat (d_tmp d' ! 0)"
    if ok: "scanHeader env n d = Inr (d', sc)"
  proof -
    from ok have "\<exists>scan. n = 4 + 2 * unat (d_tmp d' ! 0) \<and>
        parseProgression d' (unat (d_tmp d' ! 0)) scan = Inr sc"
      by (auto simp: scanHeader_def Let_def bindE_eq_Inr split: if_splits prod.splits)
    then obtain scan where
      n: "n = 4 + 2 * unat (d_tmp d' ! 0)" and
      pp: "parseProgression d' (unat (d_tmp d' ! 0)) scan = Inr sc"
      by blast
    from parseProgression_nComp [OF pp] n show ?thesis by simp
  qed
  have reject: "\<exists>msg. scanHeader env n d = Inl (FormatError msg)"
    if "readFull env n d = Inr d1 \<and> n \<noteq> 4 + 2 * unat (d_tmp d1 ! 0)"
    using that by (simp add: scanHeader_def Let_def)
  from accept reject show ?thesis by blast
qed

text \<open>
  A progressive image with one component: the payload of 6 bytes is accepted and one
  of 8 bytes, read in full, is rejected.
\<close>

theorem C8_sos_length_witness:
  "(case scanHeader scriptEnv 6
           (newDecoder True 8 8 [mkComp 1 1 1] [TBytes [1, 1, 0, 1, 5, 0]]) of
      Inl e \<Rightarrow> False
    | Inr (d', sc) \<Rightarrow> 6 = 4 + 2 * s_nComp sc \<and> s_nComp sc = unat (d_tmp d' ! 0))
   \<and> (\<exists>msg. scanHeader scriptEnv 8
           (newDecoder True 8 8 [mkComp 1 1 1, mkComp 1 1 2]
              [TBytes [1, 1, 0, 1, 5, 0, 0, 0]]) = Inl (FormatError msg))"
proof -
  let ?d6 = "newDecoder True 8 8 [mkComp 1 1 1] [TBytes [1, 1, 0, 1, 5, 0]]"
  let ?d8 = "newDecoder True 8 8 [mkComp 1 1 1, mkComp 1 1 2]
               [TBytes [1, 1, 0, 1, 5, 0, 0, 0]]"
  have "case scanHeader scriptEnv 6 ?d6 of Inl e \<Rightarrow> False | Inr r \<Rightarrow> True"
    by code_simp
  then obtain d' sc where ok: "scanHeader scriptEnv 6 ?d6 = Inr (d', sc)"
    by (auto split: sum.splits)
  from C8_sos_length [of scriptEnv 6 ?d6 d' sc] ok
  have a: "6 = 4 + 2 * s_nComp sc \<and> s_nComp sc = unat (d_tmp d' ! 0)" by blast
  have "case readFull scriptEnv 8 ?d8 of Inl e \<Rightarrow> False
        | Inr d1 \<Rightarrow> 8 \<noteq> 4 + 2 * unat (d_tmp d1 ! 0)"
    by code_simp
  then obtain d1 where
    rf: "readFull scriptEnv 8 ?d8 = Inr d1 \<and> 8 \<noteq> 4 + 2 * unat (d_tmp d1 ! 0)"
    by (auto split: sum.splits)
  from C8_sos_length [of scriptEnv 8 ?d8 _ _ d1] rf
  have b: "\<exists>msg. scanHeader scriptEnv 8 ?d8 = Inl (FormatError msg)" by blast
  from a b ok show ?thesis by simp
qed

text \<open>
  The claim as stated fails for a progressive image with one scan component: the length
  \<open>7 + 2 * 1 = 9\<close> is rejected, and the length \<open>4 + 2 * 1 = 6\<close> is accepted.
\<close>

theorem C8_counterexample:
  "d_progressive (newDecoder True 8 8 [mkComp 1 1 1] [])
   \<and> scanHeader scriptEnv 9
        (newDecoder True 8 8 [mkComp 1 1 1] [TBytes [1, 1, 0, 1, 5, 0, 0, 0, 0]])
      = Inl (FormatError ''SOS has wrong length'')
   \<and> (case scanHeader scriptEnv 6
             (newDecoder True 8 8 [mkComp 1 1 1] [TBytes [1, 1, 0, 1, 5, 0]]) of
        Inl e \<Rightarrow> False
      | Inr (d', sc) \<Rightarrow> d_progressive d' \<and> s_nComp sc = 1)"
  by code_simp

subsection \<open>The total of the sampling factors\<close>











text \<open>
  The hypothesis on the frame is used: line 112 tests the component count of the frame,
  so in a frame of three whose luma is sampled 4 x 4, which is none of the six patterns,
  the scan of the luma alone is rejected on account of the sum.
\<close>

lemma guard_reads_frame_count:
  "scanHeader scriptEnv 6
     (newDecoder False 32 32 [mkComp 4 4 1, mkComp 1 2 2, mkComp 1 2 3]
        [TBytes [1, 1, 0, 0, 63, 0]])
   = Inl (FormatError ''total sampling factors too large'')"
  by code_simp


section \<open>Block reconstruction\<close>

lemma rows_concat_gen:
  "concat (map (\<lambda>y. map (\<lambda>x. f (y * n + x)) [0..<n]) [0..<m]) = map f [0..<m * n]"
proof (induction m)
  case 0
  show ?case by simp
next
  case (Suc m)
  have "map (\<lambda>x. f (m * n + x)) [0..<n] = map f (map (\<lambda>i. i + m * n) [0..<n])"
    by (simp add: add.commute)
  also have "\<dots> = map f [m * n..<n + m * n]"
    by (simp only: map_add_upt)
  finally have row: "map (\<lambda>x. f (m * n + x)) [0..<n] = map f [m * n..<n + m * n]" .
  have "[0..<Suc m * n] = [0..<m * n] @ [m * n..<n + m * n]"
    using upt_add_eq_append [of 0 "m * n" n] by (simp add: add.commute)
  with Suc row show ?case by simp
qed

lemma rows_concat:
  "concat (map (\<lambda>y. map (\<lambda>x. f (y * 8 + x)) [0..<8]) [0..<8]) = map f [0..<64]"
  using rows_concat_gen [of f 8 8] by simp

lemma levelShift_unat:
  "unat (levelShift c) =
     (if sint c \<le> - 128 then 0 else if 128 \<le> sint c then 255 else nat (sint c + 128))"
proof -
  have mid: "unat (ucast (c + 128) :: 8 word) = nat (sint c + 128)"
    if lo: "- 128 \<le> sint c" and hi: "sint c \<le> 127"
  proof -
    have "sint (c + 128) = signed_take_bit 31 (sint c + 128)"
      by (simp add: sint_word_add)
    also have "\<dots> = sint c + 128"
      using lo hi by (simp add: signed_take_bit_int_eq_self)
    finally have s: "sint (c + 128) = sint c + 128" .
    have "uint (c + 128) = take_bit 32 (sint (c + 128))"
      by (simp add: uint_sint)
    also have "\<dots> = sint c + 128"
      using lo hi s by (simp add: take_bit_int_eq_self)
    finally have u: "uint (c + 128) = sint c + 128" .
    then have n: "unat (c + 128) = nat (sint c + 128)"
      by (simp add: unat_eq_nat_uint)
    have "unat (ucast (c + 128) :: 8 word) = take_bit 8 (unat (c + 128))"
      by (simp add: unsigned_ucast_eq)
    also have "\<dots> = nat (sint c + 128)"
      using lo hi n by (simp add: take_bit_nat_eq_self)
    finally show ?thesis .
  qed
  show ?thesis
  proof (cases "sint c < - 128")
    case True
    then show ?thesis by (simp add: levelShift_def)
  next
    case False
    show ?thesis
    proof (cases "sint c > 127")
      case True
      with False show ?thesis by (simp add: levelShift_def)
    next
      case f2: False
      with False mid have "unat (levelShift c) = nat (sint c + 128)"
        by (simp add: levelShift_def)
      with False f2 show ?thesis by auto
    qed
  qed
qed


lemma unzig_length: "length unzig = 64"
  by (simp add: unzig_def)

lemma unzig_distinct: "distinct unzig"
  by (simp add: unzig_def)

lemma unzig_bound: "z < 64 \<Longrightarrow> unzig ! z < 64"
proof -
  have "\<forall>u\<in>set unzig. u < 64" by (simp add: unzig_def)
  then show "z < 64 \<Longrightarrow> unzig ! z < 64"
    using nth_mem [of z unzig] by (simp add: unzig_length)
qed

lemma unzig_inj: "z < 64 \<Longrightarrow> z' < 64 \<Longrightarrow> unzig ! z = unzig ! z' \<Longrightarrow> z = z'"
  using unzig_distinct by (simp add: nth_eq_iff_index_eq unzig_length)

lemma dequant_fold_length:
  "length (foldl (\<lambda>b zig. b[unzig ! zig := b ! (unzig ! zig) * qt ! zig]) b zs) = length b"
  by (induction zs arbitrary: b) simp_all

lemma dequant_fold_other:
  "\<forall>z\<in>set zs. unzig ! z \<noteq> u \<Longrightarrow>
     foldl (\<lambda>b zig. b[unzig ! zig := b ! (unzig ! zig) * qt ! zig]) b zs ! u = b ! u"
  by (induction zs arbitrary: b) simp_all

lemma dequant_fold_nth:
  "distinct zs \<Longrightarrow> \<forall>z\<in>set zs. z < 64 \<Longrightarrow> length b = 64 \<Longrightarrow> z \<in> set zs \<Longrightarrow>
     foldl (\<lambda>b zig. b[unzig ! zig := b ! (unzig ! zig) * qt ! zig]) b zs ! (unzig ! z)
       = b ! (unzig ! z) * qt ! z"
proof (induction zs arbitrary: b)
  case Nil
  then show ?case by simp
next
  case (Cons z0 zs)
  let ?b1 = "b[unzig ! z0 := b ! (unzig ! z0) * qt ! z0]"
  show ?case
  proof (cases "z = z0")
    case True
    from Cons.prems have "\<forall>y\<in>set zs. unzig ! y \<noteq> unzig ! z0"
      using unzig_inj by auto
    from dequant_fold_other [OF this, of qt ?b1] True Cons.prems unzig_bound [of z0]
    show ?thesis by simp
  next
    case False
    with Cons.prems have zin: "z \<in> set zs" by simp
    from False Cons.prems zin have ne: "unzig ! z \<noteq> unzig ! z0"
      using unzig_inj by auto
    from Cons.prems have "distinct zs" "\<forall>z\<in>set zs. z < 64" "length ?b1 = 64" by simp_all
    from Cons.IH [OF this zin] ne show ?thesis by simp
  qed
qed

lemma dequantize_nth:
  "length b = 64 \<Longrightarrow> z < 64 \<Longrightarrow>
     dequantize qt b ! (unzig ! z) = b ! (unzig ! z) * qt ! z"
  unfolding dequantize_def blockSize_def
  by (rule dequant_fold_nth) simp_all

lemma dequantize_length: "length (dequantize qt b) = length b"
  by (simp add: dequantize_def dequant_fold_length)



text \<open>
  Claim C7. For a block of 64 coefficients, reconstructBlock returns no error: it
  panics when the quantization-table index of the component is outside \<^verbatim>\<open>d.quant\<close>, and
  otherwise its result is made in three steps. For every zig-zag index \<open>z\<close> in 0..63 the
  coefficient at the natural-order position \<open>unzig ! z\<close> is multiplied by the \<open>z\<close>-th value
  of the quantization table; the inverse DCT is applied; and each of the 64 values \<open>c\<close>
  becomes the byte 0 when \<open>c \<le> -128\<close>, 255 when \<open>c \<ge> 128\<close> and \<open>c + 128\<close> otherwise. The
  result does not depend on the decoder beyond the table, nor on the block position.
\<close>

theorem C7_reconstructBlock:
  assumes len: "length b = blockSize"
  shows "(let tq = unat (comp_tq (d_comp d ! compIndex));
              qt = d_quant d ! tq
          in if length (d_quant d) \<le> tq
             then reconstructBlock env d b bx byy compIndex = Inl (Panic ''index out of range'')
             else \<exists>b1 dst.
                    reconstructBlock env d b bx byy compIndex = Inr (e_idct env b1, dst)
                    \<and> length b1 = blockSize
                    \<and> (\<forall>z<blockSize. b1 ! (unzig ! z) = b ! (unzig ! z) * qt ! z)
                    \<and> length dst = 64
                    \<and> (\<forall>y<8. \<forall>x<8.
                          unat (dst ! (y * 8 + x)) =
                            (let c = sint (e_idct env b1 ! (y * 8 + x))
                             in if c \<le> - 128 then 0 else if 128 \<le> c then 255
                                else nat (c + 128))))"
proof -
  let ?tq = "unat (comp_tq (d_comp d ! compIndex))"
  let ?qt = "d_quant d ! ?tq"
  let ?b1 = "dequantize ?qt b"
  let ?b2 = "e_idct env ?b1"
  let ?dst = "map (\<lambda>k. levelShift (?b2 ! k)) [0..<64]"
  show ?thesis
  proof (cases "length (d_quant d) \<le> ?tq")
    case True
    then show ?thesis by (simp add: reconstructBlock_def Let_def)
  next
    case False
    with rows_concat [of "\<lambda>k. levelShift (?b2 ! k)"]
    have r: "reconstructBlock env d b bx byy compIndex = Inr (?b2, ?dst)"
      by (simp add: reconstructBlock_def Let_def)
    have l1: "length ?b1 = blockSize"
      using len by (simp add: dequantize_length)
    have dq: "\<forall>z<blockSize. ?b1 ! (unzig ! z) = b ! (unzig ! z) * ?qt ! z"
      using len by (simp add: dequantize_nth blockSize_def)
    have ld: "length ?dst = 64" by simp
    have px: "unat (?dst ! (y * 8 + x)) =
                 (let c = sint (?b2 ! (y * 8 + x))
                  in if c \<le> - 128 then 0 else if 128 \<le> c then 255 else nat (c + 128))"
      if "y < 8" "x < 8" for y x :: nat
    proof -
      from that have "y * 8 + x < 64" by arith
      then show ?thesis by (simp add: levelShift_unat Let_def del: upt_Suc)
    qed
    from px have px': "\<forall>y<8. \<forall>x<8. unat (?dst ! (y * 8 + x)) =
                 (let c = sint (?b2 ! (y * 8 + x))
                  in if c \<le> - 128 then 0 else if 128 \<le> c then 255 else nat (c + 128))"
      by blast
    have "\<exists>b1 dst.
            reconstructBlock env d b bx byy compIndex = Inr (e_idct env b1, dst)
            \<and> length b1 = blockSize
            \<and> (\<forall>z<blockSize. b1 ! (unzig ! z) = b ! (unzig ! z) * ?qt ! z)
            \<and> length dst = 64
            \<and> (\<forall>y<8. \<forall>x<8.
                  unat (dst ! (y * 8 + x)) =
                    (let c = sint (e_idct env b1 ! (y * 8 + x))
                     in if c \<le> - 128 then 0 else if 128 \<le> c then 255
                        else nat (c + 128)))"
      using r l1 dq ld px' by blast
    with False show ?thesis by (simp add: Let_def)
  qed
qed


text \<open>
  The block with 1000, -1000 and 5 at the natural positions 0, 1 and 8, a table of
  ones and the identity for the inverse DCT: the bytes are 255, 0, 133, and 128 for a
  coefficient 0.
\<close>

theorem C7_reconstructBlock_witness:
  "length exBlock = blockSize
   \<and> (case reconstructBlock scriptEnv (newDecoder False 8 8 [mkComp 1 1 1] []) exBlock 0 0 0 of
        Inl e \<Rightarrow> False
      | Inr (b2, dst) \<Rightarrow> length dst = 64 \<and> b2 ! 0 = 1000 \<and> b2 ! 1 = - 1000
          \<and> dst ! 0 = 255 \<and> dst ! 1 = 0 \<and> dst ! 8 = 133 \<and> dst ! 9 = 128)"
proof -
  let ?d = "newDecoder False 8 8 [mkComp 1 1 1] []"
  have len: "length exBlock = blockSize"
    by (simp add: exBlock_def)
  have tq: "unat (comp_tq (d_comp ?d ! 0)) = 0" "length (d_quant ?d) = 4"
    "d_quant ?d ! 0 = replicate blockSize 1"
    by (simp_all add: newDecoder_def comp4_def mkComp_def maxComponents_def)
  have idc: "e_idct scriptEnv = (\<lambda>b. b)" by (simp add: scriptEnv_def)
  from C7_reconstructBlock [OF len, of ?d 0 scriptEnv 0 0] tq idc
  obtain b1 dst where r: "reconstructBlock scriptEnv ?d exBlock 0 0 0 = Inr (b1, dst)"
    and l1: "length b1 = blockSize"
    and dq: "\<forall>z<blockSize. b1 ! (unzig ! z) = exBlock ! (unzig ! z) * replicate blockSize 1 ! z"
    and ld: "length dst = 64"
    and px: "\<forall>y<8. \<forall>x<8. unat (dst ! (y * 8 + x)) =
               (let c = sint (b1 ! (y * 8 + x))
                in if c \<le> - 128 then 0 else if 128 \<le> c then 255 else nat (c + 128))"
    by (auto simp: Let_def)
  have u: "unzig ! 0 = 0" "unzig ! 1 = 1" "unzig ! 2 = 8" "unzig ! 4 = 9"
    by (simp_all add: unzig_def)
  from dq [rule_format, of 0] dq [rule_format, of 1] dq [rule_format, of 2] dq [rule_format, of 4] u
  have v: "b1 ! 0 = 1000" "b1 ! 1 = - 1000" "b1 ! 8 = 5" "b1 ! 9 = 0"
    by (simp_all add: blockSize_def exBlock_def)
  from px [rule_format, of 0 0] px [rule_format, of 0 1] px [rule_format, of 1 0]
    px [rule_format, of 1 1] v
  have "unat (dst ! 0) = 255" "unat (dst ! 1) = 0" "unat (dst ! 8) = 133" "unat (dst ! 9) = 128"
    by (simp_all add: Let_def)
  then have "dst ! 0 = 255" "dst ! 1 = 0" "dst ! 8 = 133" "dst ! 9 = 128"
    by (simp_all add: word_unat_eq_iff)
  with len r ld v show ?thesis by simp
qed



section \<open>First-pass decoding of a block\<close>

lemma unzig_0: "unzig ! 0 = 0"
  by (simp add: unzig_def)

lemma unzig_pos: "1 \<le> z \<Longrightarrow> z < 64 \<Longrightarrow> unzig ! z \<noteq> 0"
  using unzig_inj [of z 0] unzig_0 by auto

lemma decodeAC_cases:
  assumes "decodeAC env ta zigEnd al zig st = Inr st'"
  obtains
    (stop) "zigEnd < zig" "st' = st"
  | (coef) val d1 ac d2 where "zig \<le> zigEnd"
      "decodeHuffman env acTable ta (snd st) = Inr (val, d1)"
      "val AND 0x0f \<noteq> 0" "zig + unat (drop_bit 4 val) \<le> zigEnd"
      "receiveExtend env (val AND 0x0f) d1 = Inr (ac, d2)"
      "decodeAC env ta zigEnd al (zig + unat (drop_bit 4 val) + 1)
         ((fst st)[unzig ! (zig + unat (drop_bit 4 val)) := push_bit al ac], d2) = Inr st'"
  | (over) val d1 where "zig \<le> zigEnd"
      "decodeHuffman env acTable ta (snd st) = Inr (val, d1)"
      "val AND 0x0f \<noteq> 0" "zigEnd < zig + unat (drop_bit 4 val)" "st' = (fst st, d1)"
  | (eob) val d1 d2 where "zig \<le> zigEnd"
      "decodeHuffman env acTable ta (snd st) = Inr (val, d1)"
      "val AND 0x0f = 0" "drop_bit 4 val \<noteq> 0x0f"
      "readEobRun env (drop_bit 4 val) d1 = Inr d2"
      "st' = (fst st, d2\<lparr>d_eobRun := d_eobRun d2 - 1\<rparr>)"
  | (zrl) val d1 where "zig \<le> zigEnd"
      "decodeHuffman env acTable ta (snd st) = Inr (val, d1)"
      "val AND 0x0f = 0" "drop_bit 4 val = 0x0f"
      "decodeAC env ta zigEnd al (zig + 0x0f + 1) (fst st, d1) = Inr st'"
proof (cases "zig \<le> zigEnd")
  case False
  with assms stop show ?thesis by (subst (asm) decodeAC.simps) simp
next
  case True
  with assms obtain val d1 where
    dh: "decodeHuffman env acTable ta (snd st) = Inr (val, d1)"
    by (subst (asm) decodeAC.simps) (auto simp: bindE_eq_Inr)
  from assms True dh have body:
    "(if val AND 0x0f \<noteq> 0 then
        (if zig + unat (drop_bit 4 val) > zigEnd then Inr (fst st, d1)
         else bindE (receiveExtend env (val AND 0x0f) d1) (\<lambda>(ac, d2).
           decodeAC env ta zigEnd al (zig + unat (drop_bit 4 val) + 1)
             ((fst st)[unzig ! (zig + unat (drop_bit 4 val)) := push_bit al ac], d2)))
      else if drop_bit 4 val \<noteq> 0x0f then
        bindE (readEobRun env (drop_bit 4 val) d1) (\<lambda>d2.
          Inr (fst st, d2\<lparr>d_eobRun := d_eobRun d2 - 1\<rparr>))
      else decodeAC env ta zigEnd al (zig + 0x0f + 1) (fst st, d1)) = Inr st'"
    by (subst (asm) decodeAC.simps) (simp add: Let_def)
  show ?thesis
  proof (cases "val AND 0x0f \<noteq> 0")
    case nz: True
    show ?thesis
    proof (cases "zig + unat (drop_bit 4 val) > zigEnd")
      case True
      with body nz have "st' = (fst st, d1)" by simp
      with over [OF \<open>zig \<le> zigEnd\<close> dh] nz True show ?thesis by simp
    next
      case False
      with body nz obtain ac d2 where
        re: "receiveExtend env (val AND 0x0f) d1 = Inr (ac, d2)" and
        rec: "decodeAC env ta zigEnd al (zig + unat (drop_bit 4 val) + 1)
               ((fst st)[unzig ! (zig + unat (drop_bit 4 val)) := push_bit al ac], d2) = Inr st'"
        by (auto simp: bindE_eq_Inr)
      from coef [OF \<open>zig \<le> zigEnd\<close> dh _ _ re rec] nz False show ?thesis by simp
    qed
  next
    case z: False
    show ?thesis
    proof (cases "drop_bit 4 val \<noteq> 0x0f")
      case True
      with body z obtain d2 where
        "readEobRun env (drop_bit 4 val) d1 = Inr d2"
        "st' = (fst st, d2\<lparr>d_eobRun := d_eobRun d2 - 1\<rparr>)"
        by (auto simp: bindE_eq_Inr)
      with eob [OF \<open>zig \<le> zigEnd\<close> dh] z True show ?thesis by simp
    next
      case False
      with body z zrl [OF \<open>zig \<le> zigEnd\<close> dh] show ?thesis by simp
    qed
  qed
qed

lemma decodeAC_keeps_dc_aux:
  "decodeAC env ta zigEnd al zig st = Inr st' \<Longrightarrow> 1 \<le> zig \<Longrightarrow> zigEnd < 64 \<Longrightarrow>
     length (fst st') = length (fst st) \<and> fst st' ! 0 = fst st ! 0"
proof (induction "zigEnd + 1 - zig" arbitrary: zig st rule: less_induct)
  case less
  from less.prems(1) show ?case
  proof (cases rule: decodeAC_cases)
    case stop
    then show ?thesis by simp
  next
    case (coef val d1 ac d2)
    let ?z = "zig + unat (drop_bit 4 val)"
    from coef less.prems have "zigEnd + 1 - (?z + 1) < zigEnd + 1 - zig" "1 \<le> ?z + 1"
      by simp_all
    from less.hyps [OF this(1) coef(6) this(2) less.prems(3)] coef(4) less.prems
    show ?thesis by (simp add: unzig_pos)
  next
    case (over val d1)
    then show ?thesis by simp
  next
    case (eob val d1 d2)
    then show ?thesis by simp
  next
    case (zrl val d1)
    from zrl less.prems have "zigEnd + 1 - (zig + 0x0f + 1) < zigEnd + 1 - zig"
      "1 \<le> zig + 0x0f + 1"
      by simp_all
    from less.hyps [OF this(1) zrl(5) this(2) less.prems(3)] show ?thesis by simp
  qed
qed

lemma decodeAC_keeps_dc:
  "decodeAC env ta zigEnd al zig (b, d) = Inr (b', d') \<Longrightarrow> 1 \<le> zig \<Longrightarrow> zigEnd < 64 \<Longrightarrow>
     length b' = length b \<and> b' ! 0 = b ! 0"
  using decodeAC_keeps_dc_aux [of env ta zigEnd al zig "(b, d)" "(b', d')"] by simp



subsection \<open>The DC coefficient\<close>

text \<open>
  Claim C6. \<open>decodeFirst\<close> is the work of processSOS on one block when \<^verbatim>\<open>ah = 0\<close>. With
  \<^verbatim>\<open>zigStart = 0\<close> it first decodes one Huffman symbol with the DC table of the
  component. When the symbol exceeds 16 the result is the UnsupportedError
  \<^verbatim>\<open>excessive DC component\<close>. Otherwise receiveExtend is called with the symbol, its result
  is added to the DC predictor of the component, the predictor shifted left by \<^verbatim>\<open>al\<close> is
  stored at position 0 of the block, and decoding goes on at zig-zag index 1 with the
  end-of-band test and the AC coefficients, which read the AC table only. When the block
  is decoded, position 0 still holds the shifted predictor and \<^verbatim>\<open>dc\<close> holds the new
  predictor.
\<close>

theorem C6_first_pass_dc:
  assumes zs: "s_zigStart sc = 0"
    and dh: "decodeHuffman env dcTable (sc_td (s_scan sc ! i)) d = Inr (val, d1)"
  shows "(16 < val \<longrightarrow>
            decodeFirst env sc i (b, dc, d) = Inl (UnsupportedError ''excessive DC component''))
       \<and> (val \<le> 16 \<and> receiveExtend env val d1 = Inr (dcDelta, d2) \<longrightarrow>
            (let ci = sc_compIndex (s_scan sc ! i);
                 pred = dc ! ci + dcDelta;
                 b0 = b[0 := push_bit (s_al sc) (dc[ci := pred] ! ci)]
             in decodeFirst env sc i (b, dc, d) =
                  (if 1 \<le> s_zigEnd sc \<and> 0 < d_eobRun d2
                   then Inr (b0, dc[ci := pred], d2\<lparr>d_eobRun := d_eobRun d2 - 1\<rparr>)
                   else bindE (decodeAC env (sc_ta (s_scan sc ! i)) (s_zigEnd sc) (s_al sc) 1
                                 (b0, d2))
                          (\<lambda>(b', d'). Inr (b', dc[ci := pred], d')))
                \<and> (\<forall>b' dc' d'.
                      decodeFirst env sc i (b, dc, d) = Inr (b', dc', d')
                      \<and> ci < length dc \<and> 0 < length b \<and> s_zigEnd sc < blockSize
                      \<longrightarrow> dc' ! ci = pred \<and> b' ! 0 = push_bit (s_al sc) pred)))"
proof -
  let ?ci = "sc_compIndex (s_scan sc ! i)"
  let ?pred = "dc ! ?ci + dcDelta"
  let ?dc = "dc[?ci := ?pred]"
  let ?b0 = "b[0 := push_bit (s_al sc) (?dc ! ?ci)]"
  let ?rhs = "(if 1 \<le> s_zigEnd sc \<and> 0 < d_eobRun d2
               then Inr (?b0, ?dc, d2\<lparr>d_eobRun := d_eobRun d2 - 1\<rparr>)
               else bindE (decodeAC env (sc_ta (s_scan sc ! i)) (s_zigEnd sc) (s_al sc) 1
                             (?b0, d2))
                      (\<lambda>(b', d'). Inr (b', ?dc, d')))"
  have big: "decodeFirst env sc i (b, dc, d) = Inl (UnsupportedError ''excessive DC component'')"
    if "16 < val"
    using that zs dh by (simp add: decodeFirst_def decodeDC_def Let_def)
  have eq: "decodeFirst env sc i (b, dc, d) = ?rhs"
    if "val \<le> 16" "receiveExtend env val d1 = Inr (dcDelta, d2)"
  proof -
    from that have nb: "\<not> 16 < val" by (simp add: not_less)
    from that(2) zs dh nb show ?thesis
      by (simp add: decodeFirst_def decodeDC_def Let_def)
  qed
  have fin: "dc' ! ?ci = ?pred \<and> b' ! 0 = push_bit (s_al sc) ?pred"
    if v: "val \<le> 16" "receiveExtend env val d1 = Inr (dcDelta, d2)"
      and r: "decodeFirst env sc i (b, dc, d) = Inr (b', dc', d')"
      and wf: "?ci < length dc" "0 < length b" "s_zigEnd sc < blockSize"
    for b' dc' d'
  proof (cases "1 \<le> s_zigEnd sc \<and> 0 < d_eobRun d2")
    case True
    with eq [OF v]
    have e1: "decodeFirst env sc i (b, dc, d) =
                Inr (?b0, ?dc, d2\<lparr>d_eobRun := d_eobRun d2 - 1\<rparr>)"
      by (simp only: if_True simp_thms)
    from trans [OF e1 [symmetric] r] have "b' = ?b0" "dc' = ?dc" by blast+
    with wf show ?thesis by simp
  next
    case False
    from eq [OF v] False
    have e2: "decodeFirst env sc i (b, dc, d) =
          bindE (decodeAC env (sc_ta (s_scan sc ! i)) (s_zigEnd sc) (s_al sc) 1 (?b0, d2))
            (\<lambda>(b', d'). Inr (b', ?dc, d'))"
      by (simp only: if_False)
    from bindE_mid_Inr [OF trans [OF e2 [symmetric] r]] have
      ac: "decodeAC env (sc_ta (s_scan sc ! i)) (s_zigEnd sc) (s_al sc) 1 (?b0, d2) = Inr (b', d')"
      and dc': "dc' = ?dc"
      by blast+
    from decodeAC_keeps_dc [OF ac] wf have "b' ! 0 = ?b0 ! 0"
      by (simp add: blockSize_def)
    with dc' wf show ?thesis by simp
  qed
  show ?thesis
    unfolding Let_def
  proof (intro conjI impI allI)
    assume "16 < val"
    then show "decodeFirst env sc i (b, dc, d) = Inl (UnsupportedError ''excessive DC component'')"
      by (rule big)
  next
    assume "val \<le> 16 \<and> receiveExtend env val d1 = Inr (dcDelta, d2)"
    then show "decodeFirst env sc i (b, dc, d) = ?rhs"
      using eq by simp
  next
    fix b' dc' d'
    assume "val \<le> 16 \<and> receiveExtend env val d1 = Inr (dcDelta, d2)"
      and "decodeFirst env sc i (b, dc, d) = Inr (b', dc', d') \<and>
           ?ci < length dc \<and> 0 < length b \<and> s_zigEnd sc < blockSize"
    then show "dc' ! ?ci = ?pred" "b' ! 0 = push_bit (s_al sc) ?pred"
      using fin [of b' dc' d'] by simp_all
  qed
qed



text \<open>
  The predictor 5, the symbol 2 and the extension 3 give the predictor 8 and the
  coefficient 8 (\<^verbatim>\<open>al = 0\<close>); the symbol 17 gives the UnsupportedError.
\<close>

theorem C6_first_pass_dc_witness:
  "(case decodeFirst scriptEnv exScanSeq 0
          (replicate blockSize 0, [5, 0, 0, 0],
           newDecoder False 8 8 [mkComp 1 1 1] [THuff 2, TExt 3, THuff 0]) of
      Inl e \<Rightarrow> False
    | Inr (b', dc', d') \<Rightarrow> dc' ! 0 = 8 \<and> b' ! 0 = 8)
   \<and> decodeFirst scriptEnv exScanSeq 0
         (replicate blockSize 0, [5, 0, 0, 0],
          newDecoder False 8 8 [mkComp 1 1 1] [THuff 17])
       = Inl (UnsupportedError ''excessive DC component'')"
proof -
  let ?d = "newDecoder False 8 8 [mkComp 1 1 1] [THuff 2, TExt 3, THuff 0]"
  let ?e = "newDecoder False 8 8 [mkComp 1 1 1] [THuff 17]"
  let ?b = "replicate blockSize (0 :: 32 word)"
  let ?dc = "[5, 0, 0, 0] :: 32 word list"
  have zs: "s_zigStart exScanSeq = 0" by (simp add: exScanSeq_def)
  have sel: "sc_td (s_scan exScanSeq ! 0) = 0" "sc_compIndex (s_scan exScanSeq ! 0) = 0"
    "s_al exScanSeq = 0" "s_zigEnd exScanSeq < blockSize"
    by (simp_all add: exScanSeq_def blockSize_def)
  have "case decodeHuffman scriptEnv dcTable 0 ?d of
          Inl e \<Rightarrow> False
        | Inr (v, d1) \<Rightarrow> v = 2 \<and>
            (case receiveExtend scriptEnv v d1 of Inl e \<Rightarrow> False | Inr (x, d2) \<Rightarrow> x = 3)"
    by code_simp
  then obtain x where x: "decodeHuffman scriptEnv dcTable 0 ?d = Inr x"
    "case x of (v, d1) \<Rightarrow> v = 2 \<and>
       (case receiveExtend scriptEnv v d1 of Inl e \<Rightarrow> False | Inr (x, d2) \<Rightarrow> x = 3)"
    by (rule case_InrE)
  obtain d1 where d1: "x = (2, d1)"
    "case receiveExtend scriptEnv 2 d1 of Inl e \<Rightarrow> False | Inr (x, d2) \<Rightarrow> x = 3"
    using x(2) by (cases x) auto
  from d1(2) obtain y where y: "receiveExtend scriptEnv 2 d1 = Inr y" "case y of (x, d2) \<Rightarrow> x = 3"
    by (rule case_InrE)
  obtain d2 where d2: "y = (3, d2)" using y(2) by (cases y) auto
  from x(1) d1(1) sel
  have dh: "decodeHuffman scriptEnv dcTable (sc_td (s_scan exScanSeq ! 0)) ?d = Inr (2, d1)"
    by simp
  from y(1) d2 have re: "receiveExtend scriptEnv 2 d1 = Inr (3, d2)" by simp
  have "case decodeFirst scriptEnv exScanSeq 0 (?b, ?dc, ?d) of Inl e \<Rightarrow> False | Inr r \<Rightarrow> True"
    by code_simp
  then obtain res where "decodeFirst scriptEnv exScanSeq 0 (?b, ?dc, ?d) = Inr res"
    by (rule case_InrE)
  then obtain b' dc' d' where
    r: "decodeFirst scriptEnv exScanSeq 0 (?b, ?dc, ?d) = Inr (b', dc', d')"
    by (cases res) auto
  from C6_first_pass_dc [OF zs dh, of ?b ?dc 3 d2] re r sel
  have a: "dc' ! 0 = 8 \<and> b' ! 0 = 8"
    by (simp add: Let_def blockSize_def)
  have "case decodeHuffman scriptEnv dcTable 0 ?e of Inl e \<Rightarrow> False | Inr (v, d1) \<Rightarrow> v = 17"
    by code_simp
  then obtain z where z: "decodeHuffman scriptEnv dcTable 0 ?e = Inr z"
    "case z of (v, d1) \<Rightarrow> v = 17"
    by (rule case_InrE)
  obtain e1 where "z = (17, e1)" using z(2) by (cases z) auto
  with z(1) sel
  have eh: "decodeHuffman scriptEnv dcTable (sc_td (s_scan exScanSeq ! 0)) ?e = Inr (17, e1)"
    by simp
  from C6_first_pass_dc [OF zs eh, of ?b ?dc]
  have b: "decodeFirst scriptEnv exScanSeq 0 (?b, ?dc, ?e)
             = Inl (UnsupportedError ''excessive DC component'')"
    by simp
  from a b r show ?thesis by simp
qed



section \<open>Refinement passes\<close>

lemma refineNonZeroes_cases:
  assumes "refineNonZeroes env b zig zigEnd nz delta d = Inr r"
  obtains
    (stop) "zigEnd < zig" "r = (zig, b, d)"
  | (brk) "zig \<le> zigEnd" "b ! (unzig ! zig) = 0" "nz = 0" "r = (zig, b, d)"
  | (skip) "zig \<le> zigEnd" "b ! (unzig ! zig) = 0" "nz \<noteq> 0"
      "refineNonZeroes env b (zig + 1) zigEnd (nz - 1) delta d = Inr r"
  | (bit0) d1 where "zig \<le> zigEnd" "b ! (unzig ! zig) \<noteq> 0"
      "decodeBit env d = Inr (False, d1)"
      "refineNonZeroes env b (zig + 1) zigEnd nz delta d1 = Inr r"
  | (bit1) d1 where "zig \<le> zigEnd" "b ! (unzig ! zig) \<noteq> 0"
      "decodeBit env d = Inr (True, d1)"
      "refineNonZeroes env
         (b[unzig ! zig := (if 0 \<le> sint (b ! (unzig ! zig)) then b ! (unzig ! zig) + delta
                            else b ! (unzig ! zig) - delta)])
         (zig + 1) zigEnd nz delta d1 = Inr r"
proof (cases "zig \<le> zigEnd")
  case False
  with assms stop show ?thesis by (subst (asm) refineNonZeroes.simps) simp
next
  case le: True
  show ?thesis
  proof (cases "b ! (unzig ! zig) = 0")
    case z: True
    show ?thesis
    proof (cases "nz = 0")
      case True
      with assms le z brk show ?thesis by (subst (asm) refineNonZeroes.simps) simp
    next
      case False
      with assms le z skip show ?thesis by (subst (asm) refineNonZeroes.simps) simp
    qed
  next
    case nzr: False
    with assms le have body:
      "bindE (decodeBit env d) (\<lambda>(bit, d1).
         if \<not> bit then refineNonZeroes env b (zig + 1) zigEnd nz delta d1
         else if 0 \<le> sint (b ! (unzig ! zig))
         then refineNonZeroes env (b[unzig ! zig := b ! (unzig ! zig) + delta])
                (zig + 1) zigEnd nz delta d1
         else refineNonZeroes env (b[unzig ! zig := b ! (unzig ! zig) - delta])
                (zig + 1) zigEnd nz delta d1) = Inr r"
      by (subst (asm) refineNonZeroes.simps) (simp add: Let_def)
    then obtain x where x: "decodeBit env d = Inr x"
      by (cases "decodeBit env d") simp_all
    obtain bit d1 where bd: "x = (bit, d1)" by (cases x)
    show ?thesis
    proof (cases bit)
      case False
      with body x bd bit0 [OF le nzr, of d1] show ?thesis by simp
    next
      case True
      with body x bd bit1 [OF le nzr, of d1] show ?thesis by (simp split: if_splits)
    qed
  qed
qed

lemma nth_unzig_update:
  "z < 64 \<Longrightarrow> z' < 64 \<Longrightarrow> length b = 64 \<Longrightarrow>
     b[unzig ! z' := v] ! (unzig ! z) = (if z = z' then v else b ! (unzig ! z))"
  using unzig_inj [of z z'] unzig_bound [of z'] by (auto simp: nth_list_update)

text \<open>What one call of refineNonZeroes does to the block.\<close>

lemma refineNonZeroes_inv:
  "refineNonZeroes env b zig zigEnd nz delta d = Inr (zig', b', d') \<Longrightarrow>
   zigEnd < 64 \<Longrightarrow> length b = 64 \<Longrightarrow>
     length b' = 64 \<and> zig \<le> zig' \<and> zig' \<le> max zig (zigEnd + 1)
     \<and> (zig' \<le> zigEnd \<longrightarrow> b' ! (unzig ! zig') = 0)
     \<and> (\<forall>z<64. (z < zig \<or> zig' \<le> z \<longrightarrow> b' ! (unzig ! z) = b ! (unzig ! z))
                \<and> corrected delta (b ! (unzig ! z)) (b' ! (unzig ! z)))"
proof (induction "zigEnd + 1 - zig" arbitrary: zig b nz d rule: less_induct)
  case less
  note len = less.prems(3) and ze = less.prems(2)
  from less.prems(1) show ?case
  proof (cases rule: refineNonZeroes_cases)
    case stop
    then show ?thesis using len by (simp add: corrected_def)
  next
    case brk
    then show ?thesis using len by (simp add: corrected_def)
  next
    case skip
    have m: "zigEnd + 1 - (zig + 1) < zigEnd + 1 - zig" using skip(1) by simp
    from less.hyps [OF m skip(4) ze len] skip(1,2) show ?thesis
      by (auto simp: corrected_def)
  next
    case (bit0 d1)
    have m: "zigEnd + 1 - (zig + 1) < zigEnd + 1 - zig" using bit0(1) by simp
    from less.hyps [OF m bit0(4) ze len] bit0(1) show ?thesis
      by (auto simp: corrected_def)
  next
    case (bit1 d1)
    let ?u = "unzig ! zig"
    let ?v = "if 0 \<le> sint (b ! ?u) then b ! ?u + delta else b ! ?u - delta"
    let ?b1 = "b[?u := ?v]"
    have m: "zigEnd + 1 - (zig + 1) < zigEnd + 1 - zig" using bit1(1) by simp
    have l1: "length ?b1 = 64" using len by simp
    from less.hyps [OF m bit1(4) ze l1]
    have ih: "length b' = 64" "zig + 1 \<le> zig'" "zig' \<le> max (zig + 1) (zigEnd + 1)"
      "zig' \<le> zigEnd \<longrightarrow> b' ! (unzig ! zig') = 0"
      "\<And>z. z < 64 \<Longrightarrow> z < zig + 1 \<or> zig' \<le> z \<Longrightarrow> b' ! (unzig ! z) = ?b1 ! (unzig ! z)"
      "\<And>z. z < 64 \<Longrightarrow> corrected delta (?b1 ! (unzig ! z)) (b' ! (unzig ! z))"
      by blast+
    have zl: "zig < 64" using bit1(1) ze by simp
    have out: "b' ! (unzig ! z) = b ! (unzig ! z)" if "z < 64" "z < zig \<or> zig' \<le> z" for z
    proof -
      from that ih(2) have "z \<noteq> zig" by auto
      with ih(5) [of z] that ih(2) nth_unzig_update [OF that(1) zl len] show ?thesis by auto
    qed
    have cor: "corrected delta (b ! (unzig ! z)) (b' ! (unzig ! z))" if "z < 64" for z
    proof (cases "z = zig")
      case True
      with ih(5) [of zig] zl nth_unzig_update [OF zl zl len, of ?v]
      have "b' ! ?u = ?v" by simp
      with True bit1(2) show ?thesis by (simp add: corrected_def)
    next
      case False
      with ih(6) [OF that] nth_unzig_update [OF that zl len, of ?v] show ?thesis by simp
    qed
    from ih(1-4) out cor bit1(1) show ?thesis by (auto simp: max_def)
  qed
qed


lemma refineLoop_cases:
  assumes "refineLoop env ta zigEnd delta zig st = Inr r"
  obtains
    (stop) "zigEnd < zig" "r = (zig, fst st, snd st)"
  | (brk) d1 where "zig \<le> zigEnd" "refineSymbol env ta delta (snd st) = Inr (None, d1)"
      "r = (zig, fst st, d1)"
  | (step) z val0 d1 zig' b' d2 where "zig \<le> zigEnd"
      "refineSymbol env ta delta (snd st) = Inr (Some (z, val0), d1)"
      "refineNonZeroes env (fst st) zig zigEnd (uint val0) delta d1 = Inr (zig', b', d2)"
      "zig' \<le> zigEnd"
      "refineLoop env ta zigEnd delta (zig' + 1)
         (if z \<noteq> 0 then b'[unzig ! zig' := z] else b', d2) = Inr r"
proof (cases "zig \<le> zigEnd")
  case False
  with assms stop show ?thesis by (subst (asm) refineLoop.simps) simp
next
  case le: True
  with assms have body:
    "bindE (refineSymbol env ta delta (snd st)) (\<lambda>(r, d1).
        case r of
          None \<Rightarrow> Inr (zig, fst st, d1)
        | Some (z, val0) \<Rightarrow>
            bindE (refineNonZeroes env (fst st) zig zigEnd (uint val0) delta d1)
              (\<lambda>(zig', b', d2).
                if zig' > zigEnd then Inl (FormatError ''too many coefficients'')
                else refineLoop env ta zigEnd delta (zig' + 1)
                       (if z \<noteq> 0 then b'[unzig ! zig' := z] else b', d2))) = Inr r"
    by (subst (asm) refineLoop.simps) simp
  then obtain x where x: "refineSymbol env ta delta (snd st) = Inr x"
    by (cases "refineSymbol env ta delta (snd st)") simp_all
  obtain sym d1 where xd: "x = (sym, d1)" by (cases x)
  show ?thesis
  proof (cases sym)
    case None
    with body x xd brk [OF le, of d1] show ?thesis by simp
  next
    case (Some zv)
    obtain z val0 where zv: "zv = (z, val0)" by (cases zv)
    from body x xd Some zv have b2:
      "bindE (refineNonZeroes env (fst st) zig zigEnd (uint val0) delta d1)
              (\<lambda>(zig', b', d2).
                if zig' > zigEnd then Inl (FormatError ''too many coefficients'')
                else refineLoop env ta zigEnd delta (zig' + 1)
                       (if z \<noteq> 0 then b'[unzig ! zig' := z] else b', d2)) = Inr r"
      by simp
    then obtain y where y: "refineNonZeroes env (fst st) zig zigEnd (uint val0) delta d1 = Inr y"
      by (cases "refineNonZeroes env (fst st) zig zigEnd (uint val0) delta d1") simp_all
    obtain zig' b' d2 where yd: "y = (zig', b', d2)" by (cases y)
    from b2 y yd have le': "zig' \<le> zigEnd" by (simp split: if_splits)
    with b2 y yd have
      "refineLoop env ta zigEnd delta (zig' + 1)
         (if z \<noteq> 0 then b'[unzig ! zig' := z] else b', d2) = Inr r"
      by simp
    with step [OF le _ _ le'] x xd Some zv y yd show ?thesis by simp
  qed
qed

text \<open>
  What the loop of refine does to the block: a coefficient that is not zero gets at
  most one correction, and nothing changes outside the positions the loop has passed.
\<close>

lemma refineLoop_inv:
  "refineLoop env ta zigEnd delta zig (b, d) = Inr (zig', b', d') \<Longrightarrow>
   zigEnd < 64 \<Longrightarrow> length b = 64 \<Longrightarrow>
     length b' = 64 \<and> zig \<le> zig' \<and> zig' \<le> max zig (zigEnd + 1)
     \<and> (\<forall>z<64. (z < zig \<or> zig' \<le> z \<longrightarrow> b' ! (unzig ! z) = b ! (unzig ! z))
                \<and> (b ! (unzig ! z) \<noteq> 0 \<longrightarrow>
                     corrected delta (b ! (unzig ! z)) (b' ! (unzig ! z))))"
proof (induction "zigEnd + 1 - zig" arbitrary: zig b d rule: less_induct)
  case less
  note len = less.prems(3) and ze = less.prems(2)
  from less.prems(1) show ?case
  proof (cases rule: refineLoop_cases)
    case stop
    then show ?thesis using len by (simp add: corrected_def)
  next
    case (brk d1)
    then show ?thesis using len by (simp add: corrected_def)
  next
    case (step z val0 d1 zig1 b1 d2)
    let ?b2 = "if z \<noteq> 0 then b1[unzig ! zig1 := z] else b1"
    from step(3) have rn: "refineNonZeroes env b zig zigEnd (uint val0) delta d1 = Inr (zig1, b1, d2)"
      by simp
    from refineNonZeroes_inv [OF rn ze len]
    have r1: "length b1 = 64" "zig \<le> zig1" "b1 ! (unzig ! zig1) = 0"
      "\<And>z. z < 64 \<Longrightarrow> z < zig \<or> zig1 \<le> z \<Longrightarrow> b1 ! (unzig ! z) = b ! (unzig ! z)"
      "\<And>z. z < 64 \<Longrightarrow> corrected delta (b ! (unzig ! z)) (b1 ! (unzig ! z))"
      using step(4) by blast+
    have z1: "zig1 < 64" using step(4) ze by simp
    have l2: "length ?b2 = 64" using r1(1) by simp
    have m: "zigEnd + 1 - (zig1 + 1) < zigEnd + 1 - zig" using step(1,4) r1(2) by simp
    from less.hyps [OF m step(5) ze l2]
    have ih: "length b' = 64" "zig1 + 1 \<le> zig'"
      "\<And>z. z < 64 \<Longrightarrow> z < zig1 + 1 \<or> zig' \<le> z \<Longrightarrow> b' ! (unzig ! z) = ?b2 ! (unzig ! z)"
      "zig' \<le> max (zig1 + 1) (zigEnd + 1)"
      "\<And>z. z < 64 \<Longrightarrow> ?b2 ! (unzig ! z) \<noteq> 0 \<Longrightarrow>
             corrected delta (?b2 ! (unzig ! z)) (b' ! (unzig ! z))"
      by blast+
    from ih(4) step(4) have ub: "zig' \<le> max zig (zigEnd + 1)" by simp
    have b2: "?b2 ! (unzig ! y) = (if y = zig1 \<and> z \<noteq> 0 then z else b1 ! (unzig ! y))"
      if "y < 64" for y
      using nth_unzig_update [OF that z1 r1(1), of z] by auto
    have out: "b' ! (unzig ! y) = b ! (unzig ! y)" if "y < 64" "y < zig \<or> zig' \<le> y" for y
    proof -
      from that r1(2) ih(2) have ne: "y \<noteq> zig1" and o1: "y < zig \<or> zig1 \<le> y"
        and o2: "y < zig1 + 1 \<or> zig' \<le> y" by auto
      from ih(3) [OF that(1) o2] b2 [OF that(1)] ne r1(4) [OF that(1) o1] show ?thesis by simp
    qed
    have cor: "corrected delta (b ! (unzig ! y)) (b' ! (unzig ! y))"
      if "y < 64" "b ! (unzig ! y) \<noteq> 0" for y
    proof -
      from that r1(3) r1(4) [of zig1] z1 have ne: "y \<noteq> zig1" by auto
      show ?thesis
      proof (cases "y < zig1")
        case True
        then have "y < zig1 + 1 \<or> zig' \<le> y" by simp
        from ih(3) [OF that(1) this] b2 [OF that(1)] ne r1(5) [OF that(1)] show ?thesis by simp
      next
        case False
        with ne have "zig1 \<le> y" by simp
        then have e: "b1 ! (unzig ! y) = b ! (unzig ! y)" using r1(4) [OF that(1)] by simp
        with b2 [OF that(1)] ne have e2: "?b2 ! (unzig ! y) = b ! (unzig ! y)" by simp
        with ih(5) [OF that(1)] that(2) show ?thesis by simp
      qed
    qed
    from ih(1,2) r1(2) ub out cor show ?thesis by auto
  qed
qed


lemma pow_al_bound: "al < 31 \<Longrightarrow> (2 :: int) ^ al < 2 ^ 31"
  by (rule power_strict_increasing) simp_all

lemma pow31: "(2 :: int) ^ 31 = 2147483648"
  by simp

lemma sint_pow2: "al < 31 \<Longrightarrow> sint (2 ^ al :: 32 word) = 2 ^ al"
proof -
  assume al: "al < 31"
  have p: "(0 :: int) \<le> 2 ^ al" by simp
  have "sint (word_of_int (2 ^ al) :: 32 word) = signed_take_bit 31 (2 ^ al :: int)"
    by (simp only: sint_sbintrunc') simp
  also have "\<dots> = 2 ^ al"
  proof (rule signed_take_bit_int_eq_self)
    show "- (2 ^ 31) \<le> (2 :: int) ^ al" using p unfolding pow31 by linarith
    show "(2 :: int) ^ al < 2 ^ 31" by (rule pow_al_bound [OF al])
  qed
  finally show ?thesis by (simp only: word_of_int_2p)
qed

lemma sint_delta: "al < 31 \<Longrightarrow> sint (push_bit al 1 :: 32 word) = 2 ^ al"
  by (simp add: sint_pow2)

lemma sint_add_delta:
  assumes "al < 31" "0 \<le> sint x" "sint x < 2 ^ 31 - 2 ^ al"
  shows "sint (x + push_bit al 1 :: 32 word) = sint x + 2 ^ al"
proof -
  have p: "(0 :: int) \<le> 2 ^ al" by simp
  have "sint (x + push_bit al 1) = signed_take_bit 31 (sint x + 2 ^ al)"
    using assms(1) by (simp add: sint_word_add sint_pow2)
  also have "\<dots> = sint x + 2 ^ al"
  proof (rule signed_take_bit_int_eq_self)
    show "- (2 ^ 31) \<le> sint x + 2 ^ al" using p assms(2) unfolding pow31 by linarith
    show "sint x + 2 ^ al < 2 ^ 31" using assms(3) unfolding pow31 by linarith
  qed
  finally show ?thesis .
qed

lemma sint_sub_delta:
  assumes "al < 31" "sint x < 0" "- (2 ^ 31) + 2 ^ al \<le> sint x"
  shows "sint (x - push_bit al 1 :: 32 word) = sint x - 2 ^ al"
proof -
  have p: "(0 :: int) \<le> 2 ^ al" by simp
  have "sint (x - push_bit al 1) = signed_take_bit 31 (sint x - 2 ^ al)"
    using assms(1) by (simp add: sint_word_diff sint_pow2)
  also have "\<dots> = sint x - 2 ^ al"
  proof (rule signed_take_bit_int_eq_self)
    show "- (2 ^ 31) \<le> sint x - 2 ^ al" using assms(3) unfolding pow31 by linarith
    show "sint x - 2 ^ al < 2 ^ 31" using p assms(2) unfolding pow31 by linarith
  qed
  finally show ?thesis .
qed

lemma or_delta_sign:
  assumes "al < 31"
  shows "(sint (x OR push_bit al 1 :: 32 word) < 0) = (sint x < 0)"
proof -
  have "bit (x OR push_bit al 1) 31 = bit x 31"
    using assms by (simp add: bit_or_iff bit_exp_iff)
  then show ?thesis
    using bit_last_iff [of x] bit_last_iff [of "x OR push_bit al 1"] by simp
qed

lemma or_delta_nonzero: "x \<noteq> 0 \<Longrightarrow> x OR y \<noteq> (0 :: 32 word)"
  by (simp add: or_eq_0_iff)


lemma bindE_InrE:
  assumes "bindE m f = Inr y"
  obtains x where "m = Inr x" "f x = Inr y"
  using assms by (cases m) simp_all

lemma bindE_drop_Inr:
  "bindE m (\<lambda>(a, x, y). Inr (x, y)) = Inr (x', y') \<Longrightarrow> \<exists>a. m = Inr (a, x', y')"
  by (cases m) auto

lemma refine_ac:
  assumes r: "refine env b ta zigStart zigEnd delta d = Inr (b', d')"
    and zs: "zigStart \<noteq> 0" and ze: "zigEnd < 64" and len: "length b = 64"
  shows "\<forall>z<64. (z < zigStart \<or> zigEnd < z \<longrightarrow> b' ! (unzig ! z) = b ! (unzig ! z))
                \<and> (b ! (unzig ! z) \<noteq> 0 \<longrightarrow>
                      corrected delta (b ! (unzig ! z)) (b' ! (unzig ! z)))"
proof -
  let ?P = "\<lambda>b b' lo hi. \<forall>z<64.
      (z < lo \<or> hi \<le> z \<longrightarrow> b' ! (unzig ! z) = b ! (unzig ! z))
      \<and> (b ! (unzig ! z) \<noteq> 0 \<longrightarrow> corrected delta (b ! (unzig ! z)) (b' ! (unzig ! z)))"
  from r zs have body:
    "bindE (if d_eobRun d = 0 then refineLoop env ta zigEnd delta zigStart (b, d)
            else Inr (zigStart, b, d))
       (\<lambda>(zig, b1, d1).
          if d_eobRun d1 > 0
          then bindE (refineNonZeroes env b1 zig zigEnd (- 1) delta
                        (d1\<lparr>d_eobRun := d_eobRun d1 - 1\<rparr>))
                 (\<lambda>(zig', b2, d2). Inr (b2, d2))
          else Inr (b1, d1)) = Inr (b', d')"
    by (simp add: refine_def)
  then obtain x where x:
    "(if d_eobRun d = 0 then refineLoop env ta zigEnd delta zigStart (b, d)
      else Inr (zigStart, b, d)) = Inr x"
    by (cases "if d_eobRun d = 0 then refineLoop env ta zigEnd delta zigStart (b, d)
               else Inr (zigStart, b, d)") simp_all
  obtain zig1 b1 d1 where xd: "x = (zig1, b1, d1)" by (cases x)
  have first: "length b1 = 64 \<and> zigStart \<le> zig1 \<and> zig1 \<le> max zigStart (zigEnd + 1)
      \<and> ?P b b1 zigStart zig1"
  proof (cases "d_eobRun d = 0")
    case True
    with x xd have "refineLoop env ta zigEnd delta zigStart (b, d) = Inr (zig1, b1, d1)"
      by simp
    from refineLoop_inv [OF this ze len] show ?thesis by simp
  next
    case False
    with x xd len show ?thesis by (simp add: corrected_def)
  qed
  from body x xd have rest:
    "(if d_eobRun d1 > 0
      then bindE (refineNonZeroes env b1 zig1 zigEnd (- 1) delta
                    (d1\<lparr>d_eobRun := d_eobRun d1 - 1\<rparr>))
             (\<lambda>(zig', b2, d2). Inr (b2, d2))
      else Inr (b1, d1)) = Inr (b', d')"
    by simp
  show ?thesis
  proof (cases "d_eobRun d1 > 0")
    case False
    with rest have "b' = b1" by simp
    with first show ?thesis by auto
  next
    case True
    with rest have
      "bindE (refineNonZeroes env b1 zig1 zigEnd (- 1) delta
                (d1\<lparr>d_eobRun := d_eobRun d1 - 1\<rparr>))
         (\<lambda>(zig', b2, d2). Inr (b2, d2)) = Inr (b', d')"
      by simp
    from bindE_drop_Inr [OF this] obtain zig2 where rn:
      "refineNonZeroes env b1 zig1 zigEnd (- 1) delta (d1\<lparr>d_eobRun := d_eobRun d1 - 1\<rparr>)
         = Inr (zig2, b', d')"
      by blast
    from first have l1: "length b1 = 64" by simp
    from refineNonZeroes_inv [OF rn ze l1]
    have s: "zig1 \<le> zig2" "zig2 \<le> max zig1 (zigEnd + 1)"
      "\<And>z. z < 64 \<Longrightarrow> z < zig1 \<or> zig2 \<le> z \<Longrightarrow> b' ! (unzig ! z) = b1 ! (unzig ! z)"
      "\<And>z. z < 64 \<Longrightarrow> corrected delta (b1 ! (unzig ! z)) (b' ! (unzig ! z))"
      by blast+
    from first have f: "zigStart \<le> zig1" "zig1 \<le> max zigStart (zigEnd + 1)"
      "\<And>z. z < 64 \<Longrightarrow> z < zigStart \<or> zig1 \<le> z \<Longrightarrow> b1 ! (unzig ! z) = b ! (unzig ! z)"
      "\<And>z. z < 64 \<Longrightarrow> b ! (unzig ! z) \<noteq> 0 \<Longrightarrow>
             corrected delta (b ! (unzig ! z)) (b1 ! (unzig ! z))"
      by blast+
    have out: "b' ! (unzig ! z) = b ! (unzig ! z)" if "z < 64" "z < zigStart \<or> zigEnd < z" for z
    proof -
      from that(2) f(1,2) s(1,2) have o1: "z < zigStart \<or> zig1 \<le> z" and o2: "z < zig1 \<or> zig2 \<le> z"
        by (auto simp: max_def split: if_splits)
      from s(3) [OF that(1) o2] f(3) [OF that(1) o1] show ?thesis by simp
    qed
    have cor: "corrected delta (b ! (unzig ! z)) (b' ! (unzig ! z))"
      if "z < 64" "b ! (unzig ! z) \<noteq> 0" for z
    proof (cases "z < zig1")
      case True
      with s(3) [OF that(1)] f(4) [OF that] show ?thesis by simp
    next
      case False
      with f(3) [OF that(1)] s(4) [OF that(1)] show ?thesis by simp
    qed
    from out cor show ?thesis by blast
  qed
qed

lemma correctedBy_corrected: "correctedBy env delta x y \<Longrightarrow> x \<noteq> 0 \<Longrightarrow> corrected delta x y"
  by (auto simp: correctedBy_def correct1_def corrected_def)

lemma refineNonZeroes_step:
  assumes "zig \<le> zigEnd" "b ! (unzig ! zig) \<noteq> 0" "decodeBit env d = Inr (bt, d1)"
  shows "refineNonZeroes env b zig zigEnd nz delta d =
           refineNonZeroes env (b[unzig ! zig := correct1 delta bt (b ! (unzig ! zig))])
             (zig + 1) zigEnd nz delta d1"
  using assms
  by (subst refineNonZeroes.simps [of env b zig zigEnd nz delta d])
     (simp add: Let_def correct1_def)

text \<open>
  Every coefficient that is not zero and that refineNonZeroes has passed got one
  correction, decided by a bit that decodeBit returned.
\<close>

lemma refineNonZeroes_bits:
  "refineNonZeroes env b zig zigEnd nz delta d = Inr (zig', b', d') \<Longrightarrow>
   zigEnd < 64 \<Longrightarrow> length b = 64 \<Longrightarrow>
     (\<forall>z. zig \<le> z \<and> z < zig' \<and> b ! (unzig ! z) \<noteq> 0 \<longrightarrow>
            correctedBy env delta (b ! (unzig ! z)) (b' ! (unzig ! z)))"
proof (induction "zigEnd + 1 - zig" arbitrary: zig b nz d rule: less_induct)
  case less
  note len = less.prems(3) and ze = less.prems(2)
  from refineNonZeroes_inv [OF less.prems]
  have up: "zig' \<le> max zig (zigEnd + 1)" by simp
  from less.prems(1) show ?case
  proof (cases rule: refineNonZeroes_cases)
    case stop
    then show ?thesis by auto
  next
    case brk
    then show ?thesis by auto
  next
    case skip
    have m: "zigEnd + 1 - (zig + 1) < zigEnd + 1 - zig" using skip(1) by simp
    from less.hyps [OF m skip(4) ze len]
    have ih: "\<And>z. zig + 1 \<le> z \<Longrightarrow> z < zig' \<Longrightarrow> b ! (unzig ! z) \<noteq> 0 \<Longrightarrow>
              correctedBy env delta (b ! (unzig ! z)) (b' ! (unzig ! z))"
      by blast
    show ?thesis
    proof (intro allI impI)
      fix z
      assume a: "zig \<le> z \<and> z < zig' \<and> b ! (unzig ! z) \<noteq> 0"
      with skip(2) have "z \<noteq> zig" by auto
      with a have "zig + 1 \<le> z" by simp
      with a ih show "correctedBy env delta (b ! (unzig ! z)) (b' ! (unzig ! z))" by blast
    qed
  next
    case (bit0 d1)
    have m: "zigEnd + 1 - (zig + 1) < zigEnd + 1 - zig" using bit0(1) by simp
    have zl: "zig < 64" using bit0(1) ze by simp
    from refineNonZeroes_inv [OF bit0(4) ze len] zl
    have same: "b' ! (unzig ! zig) = b ! (unzig ! zig)" by simp
    from bit0(3) same have here: "correctedBy env delta (b ! (unzig ! zig)) (b' ! (unzig ! zig))"
      by (auto simp: correctedBy_def correct1_def)
    from less.hyps [OF m bit0(4) ze len]
    have ih: "\<And>z. zig + 1 \<le> z \<Longrightarrow> z < zig' \<Longrightarrow> b ! (unzig ! z) \<noteq> 0 \<Longrightarrow>
              correctedBy env delta (b ! (unzig ! z)) (b' ! (unzig ! z))"
      by blast
    show ?thesis
    proof (intro allI impI)
      fix z
      assume a: "zig \<le> z \<and> z < zig' \<and> b ! (unzig ! z) \<noteq> 0"
      show "correctedBy env delta (b ! (unzig ! z)) (b' ! (unzig ! z))"
      proof (cases "z = zig")
        case True
        with here show ?thesis by simp
      next
        case False
        with a have "zig + 1 \<le> z" by simp
        with a ih show ?thesis by blast
      qed
    qed
  next
    case (bit1 d1)
    let ?u = "unzig ! zig"
    let ?v = "if 0 \<le> sint (b ! ?u) then b ! ?u + delta else b ! ?u - delta"
    let ?b1 = "b[?u := ?v]"
    have m: "zigEnd + 1 - (zig + 1) < zigEnd + 1 - zig" using bit1(1) by simp
    have l1: "length ?b1 = 64" using len by simp
    have zl: "zig < 64" using bit1(1) ze by simp
    from refineNonZeroes_inv [OF bit1(4) ze l1] zl
    have "b' ! ?u = ?b1 ! ?u" by simp
    also have "\<dots> = ?v" using nth_unzig_update [OF zl zl len, of ?v] by simp
    finally have same: "b' ! ?u = ?v" .
    from bit1(3) same have here: "correctedBy env delta (b ! ?u) (b' ! ?u)"
      by (auto simp: correctedBy_def correct1_def)
    have rest: "correctedBy env delta (b ! (unzig ! z)) (b' ! (unzig ! z))"
      if "zig + 1 \<le> z" "z < zig'" "b ! (unzig ! z) \<noteq> 0" for z
    proof -
      from that up bit1(1) ze have z64: "z < 64" by (simp add: max_def split: if_splits)
      from that have "z \<noteq> zig" by simp
      with nth_unzig_update [OF z64 zl len, of ?v]
      have e: "?b1 ! (unzig ! z) = b ! (unzig ! z)" by simp
      from less.hyps [OF m bit1(4) ze l1, rule_format, of z] that e show ?thesis by simp
    qed
    show ?thesis
    proof (intro allI impI)
      fix z
      assume a: "zig \<le> z \<and> z < zig' \<and> b ! (unzig ! z) \<noteq> 0"
      show "correctedBy env delta (b ! (unzig ! z)) (b' ! (unzig ! z))"
      proof (cases "z = zig")
        case True
        with here show ?thesis by simp
      next
        case False
        with a have "zig + 1 \<le> z" by simp
        with a rest show ?thesis by blast
      qed
    qed
  qed
qed

lemma refineNonZeroes_all:
  "refineNonZeroes env b zig zigEnd nz delta d = Inr (zig', b', d') \<Longrightarrow> nz < 0 \<Longrightarrow>
     zig' = max zig (zigEnd + 1)"
proof (induction "zigEnd + 1 - zig" arbitrary: zig b nz d rule: less_induct)
  case less
  from less.prems(1) show ?case
  proof (cases rule: refineNonZeroes_cases)
    case stop
    then show ?thesis by (simp add: max_def)
  next
    case brk
    with less.prems(2) show ?thesis by simp
  next
    case skip
    have m: "zigEnd + 1 - (zig + 1) < zigEnd + 1 - zig" using skip(1) by simp
    from less.hyps [OF m skip(4)] less.prems(2) skip(1) show ?thesis by (simp add: max_def)
  next
    case (bit0 d1)
    have m: "zigEnd + 1 - (zig + 1) < zigEnd + 1 - zig" using bit0(1) by simp
    from less.hyps [OF m bit0(4) less.prems(2)] bit0(1) show ?thesis by (simp add: max_def)
  next
    case (bit1 d1)
    have m: "zigEnd + 1 - (zig + 1) < zigEnd + 1 - zig" using bit1(1) by simp
    from less.hyps [OF m bit1(4) less.prems(2)] bit1(1) show ?thesis by (simp add: max_def)
  qed
qed

lemma decodeBits_keeps_run:
  "decodeBits env n d = Inr (x, d') \<Longrightarrow> d_eobRun d' = d_eobRun d"
  by (auto simp: decodeBits_def split: sum.splits)

lemma readEobRun_nonzero:
  assumes "readEobRun env val0 d = Inr d'" and "unat val0 < 16"
  shows "d_eobRun d' \<noteq> 0"
proof -
  have p: "(push_bit (unat val0) 1 :: 16 word) \<noteq> 0"
    using assms(2) by (simp add: exp_eq_zero_iff)
  show ?thesis
  proof (cases "val0 = 0")
    case True
    with assms(1) p show ?thesis by (auto simp: readEobRun_def Let_def)
  next
    case False
    let ?d1 = "d\<lparr>d_eobRun := push_bit (unat val0) 1\<rparr>"
    from assms(1) False have b: "bindE (decodeBits env (unat val0) ?d1) (\<lambda>(bits, d2).
                Inr (d2\<lparr>d_eobRun := d_eobRun d2 OR ucast bits\<rparr>)) = Inr d'"
      by (simp add: readEobRun_def Let_def)
    then obtain x where x: "decodeBits env (unat val0) ?d1 = Inr x"
      by (cases "decodeBits env (unat val0) ?d1") simp_all
    obtain bits d2 where xd: "x = (bits, d2)" by (cases x)
    from decodeBits_keeps_run [of env "unat val0" ?d1 bits d2] x xd
    have "d_eobRun d2 = push_bit (unat val0) 1" by simp
    with b x xd p show ?thesis by (auto simp: or_eq_0_iff)
  qed
qed

lemma refineSymbol_None:
  assumes "refineSymbol env ta delta d = Inr (None, d')"
  shows "d_eobRun d' \<noteq> 0"
proof -
  from assms obtain x where x: "decodeHuffman env acTable ta d = Inr x"
    by (cases "decodeHuffman env acTable ta d") (simp_all add: refineSymbol_def)
  obtain val d1 where xd: "x = (val, d1)" by (cases x)
  let ?val0 = "drop_bit 4 val" and ?val1 = "val AND 0x0f"
  from assms x xd have body:
    "(if ?val1 = 0 then
        (if ?val0 \<noteq> 0x0f
         then bindE (readEobRun env ?val0 d1) (\<lambda>d2. Inr (None, d2))
         else Inr (Some (0, ?val0), d1))
      else if ?val1 = 1 then
        bindE (decodeBit env d1) (\<lambda>(bt, d2).
          Inr (Some (if \<not> bt then - delta else delta, ?val0), d2))
      else Inl (FormatError ''unexpected Huffman code'')) = Inr (None, d')"
    by (simp add: refineSymbol_def Let_def)
  have "readEobRun env ?val0 d1 = Inr d'"
  proof (cases "?val1 = 0")
    case z: True
    show ?thesis
    proof (cases "?val0 \<noteq> 0x0f")
      case True
      with body z show ?thesis by (cases "readEobRun env ?val0 d1") simp_all
    next
      case False
      with body z show ?thesis by simp
    qed
  next
    case nz: False
    show ?thesis
    proof (cases "?val1 = 1")
      case True
      with body nz show ?thesis by (cases "decodeBit env d1") auto
    next
      case False
      with body nz show ?thesis by simp
    qed
  qed
  moreover have "unat ?val0 < 16"
  proof -
    have "unat ?val0 = unat val div 2 ^ 4" by (simp add: drop_bit_eq_div unat_div)
    moreover have "unat val < 2 ^ 8" using unsigned_less [of val] by simp
    ultimately show ?thesis by simp
  qed
  ultimately show ?thesis by (rule readEobRun_nonzero)
qed


lemma refineLoop_bits:
  "refineLoop env ta zigEnd delta zig (b, d) = Inr (zig', b', d') \<Longrightarrow>
   zigEnd < 64 \<Longrightarrow> length b = 64 \<Longrightarrow>
     (\<forall>z. zig \<le> z \<and> z < zig' \<and> b ! (unzig ! z) \<noteq> 0 \<longrightarrow>
            correctedBy env delta (b ! (unzig ! z)) (b' ! (unzig ! z)))
     \<and> (zig' \<le> zigEnd \<longrightarrow> d_eobRun d' \<noteq> 0)"
proof (induction "zigEnd + 1 - zig" arbitrary: zig b d rule: less_induct)
  case less
  note len = less.prems(3) and ze = less.prems(2)
  from less.prems(1) show ?case
  proof (cases rule: refineLoop_cases)
    case stop
    then show ?thesis by auto
  next
    case (brk d1)
    with refineSymbol_None [of env ta delta d d1] show ?thesis by auto
  next
    case (step z val0 d1 zig1 b1 d2)
    let ?b2 = "if z \<noteq> 0 then b1[unzig ! zig1 := z] else b1"
    from step(3) have rn: "refineNonZeroes env b zig zigEnd (uint val0) delta d1 = Inr (zig1, b1, d2)"
      by simp
    from refineNonZeroes_inv [OF rn ze len]
    have r1: "length b1 = 64" "zig \<le> zig1" "b1 ! (unzig ! zig1) = 0"
      "\<And>y. y < 64 \<Longrightarrow> y < zig \<or> zig1 \<le> y \<Longrightarrow> b1 ! (unzig ! y) = b ! (unzig ! y)"
      using step(4) by blast+
    from refineNonZeroes_bits [OF rn ze len]
    have nb: "\<And>y. zig \<le> y \<Longrightarrow> y < zig1 \<Longrightarrow> b ! (unzig ! y) \<noteq> 0 \<Longrightarrow>
                correctedBy env delta (b ! (unzig ! y)) (b1 ! (unzig ! y))"
      by blast
    have z1: "zig1 < 64" using step(4) ze by simp
    have l2: "length ?b2 = 64" using r1(1) by simp
    have m: "zigEnd + 1 - (zig1 + 1) < zigEnd + 1 - zig" using step(1,4) r1(2) by simp
    from less.hyps [OF m step(5) ze l2]
    have ih: "\<And>y. zig1 + 1 \<le> y \<Longrightarrow> y < zig' \<Longrightarrow> ?b2 ! (unzig ! y) \<noteq> 0 \<Longrightarrow>
                correctedBy env delta (?b2 ! (unzig ! y)) (b' ! (unzig ! y))"
      and run: "zig' \<le> zigEnd \<longrightarrow> d_eobRun d' \<noteq> 0"
      by blast+
    from refineLoop_inv [OF step(5) ze l2]
    have li: "zig' \<le> max (zig1 + 1) (zigEnd + 1)"
      "\<And>y. y < 64 \<Longrightarrow> y < zig1 + 1 \<or> zig' \<le> y \<Longrightarrow> b' ! (unzig ! y) = ?b2 ! (unzig ! y)"
      by blast+
    have b2: "?b2 ! (unzig ! y) = (if y = zig1 \<and> z \<noteq> 0 then z else b1 ! (unzig ! y))"
      if "y < 64" for y
      using nth_unzig_update [OF that z1 r1(1), of z] by auto
    have cor: "correctedBy env delta (b ! (unzig ! y)) (b' ! (unzig ! y))"
      if a: "zig \<le> y" "y < zig'" "b ! (unzig ! y) \<noteq> 0" for y
    proof -
      from a(2) li(1) step(4) ze have y64: "y < 64" by (simp add: max_def split: if_splits)
      from a(3) r1(3) r1(4) [OF z1] have ne: "y \<noteq> zig1" by auto
      show ?thesis
      proof (cases "y < zig1")
        case True
        from li(2) [OF y64] True b2 [OF y64] ne have "b' ! (unzig ! y) = b1 ! (unzig ! y)"
          by simp
        with nb [OF a(1) True a(3)] show ?thesis by simp
      next
        case False
        with ne have g: "zig1 + 1 \<le> y" by simp
        then have "zig1 \<le> y" by simp
        with r1(4) [OF y64] b2 [OF y64] ne have e: "?b2 ! (unzig ! y) = b ! (unzig ! y)"
          by simp
        from ih [OF g a(2)] e a(3) show ?thesis by simp
      qed
    qed
    from cor run show ?thesis by blast
  qed
qed

lemma refine_ac_bits:
  assumes r: "refine env b ta zigStart zigEnd delta d = Inr (b', d')"
    and zs: "zigStart \<noteq> 0" and ze: "zigEnd < 64" and len: "length b = 64"
  shows "\<forall>z. zigStart \<le> z \<and> z \<le> zigEnd \<and> b ! (unzig ! z) \<noteq> 0 \<longrightarrow>
              correctedBy env delta (b ! (unzig ! z)) (b' ! (unzig ! z))"
proof -
  from r zs have body:
    "bindE (if d_eobRun d = 0 then refineLoop env ta zigEnd delta zigStart (b, d)
            else Inr (zigStart, b, d))
       (\<lambda>(zig, b1, d1).
          if d_eobRun d1 > 0
          then bindE (refineNonZeroes env b1 zig zigEnd (- 1) delta
                        (d1\<lparr>d_eobRun := d_eobRun d1 - 1\<rparr>))
                 (\<lambda>(zig', b2, d2). Inr (b2, d2))
          else Inr (b1, d1)) = Inr (b', d')"
    by (simp add: refine_def)
  then obtain x where x:
    "(if d_eobRun d = 0 then refineLoop env ta zigEnd delta zigStart (b, d)
      else Inr (zigStart, b, d)) = Inr x"
    by (cases "if d_eobRun d = 0 then refineLoop env ta zigEnd delta zigStart (b, d)
               else Inr (zigStart, b, d)") simp_all
  obtain zig1 b1 d1 where xd: "x = (zig1, b1, d1)" by (cases x)
  have first: "length b1 = 64 \<and> zigStart \<le> zig1
      \<and> (\<forall>z<64. zig1 \<le> z \<longrightarrow> b1 ! (unzig ! z) = b ! (unzig ! z))
      \<and> (\<forall>z. zigStart \<le> z \<and> z < zig1 \<and> b ! (unzig ! z) \<noteq> 0 \<longrightarrow>
              correctedBy env delta (b ! (unzig ! z)) (b1 ! (unzig ! z)))
      \<and> (zig1 \<le> zigEnd \<longrightarrow> d_eobRun d1 \<noteq> 0)"
  proof (cases "d_eobRun d = 0")
    case True
    with x xd have rl: "refineLoop env ta zigEnd delta zigStart (b, d) = Inr (zig1, b1, d1)"
      by simp
    from refineLoop_inv [OF rl ze len] refineLoop_bits [OF rl ze len] show ?thesis by simp
  next
    case False
    with x xd len show ?thesis by auto
  qed
  from body x xd have rest:
    "(if d_eobRun d1 > 0
      then bindE (refineNonZeroes env b1 zig1 zigEnd (- 1) delta
                    (d1\<lparr>d_eobRun := d_eobRun d1 - 1\<rparr>))
             (\<lambda>(zig', b2, d2). Inr (b2, d2))
      else Inr (b1, d1)) = Inr (b', d')"
    by simp
  from first have f: "length b1 = 64" "zigStart \<le> zig1"
    "\<And>z. z < 64 \<Longrightarrow> zig1 \<le> z \<Longrightarrow> b1 ! (unzig ! z) = b ! (unzig ! z)"
    "\<And>z. zigStart \<le> z \<Longrightarrow> z < zig1 \<Longrightarrow> b ! (unzig ! z) \<noteq> 0 \<Longrightarrow>
           correctedBy env delta (b ! (unzig ! z)) (b1 ! (unzig ! z))"
    "zig1 \<le> zigEnd \<longrightarrow> d_eobRun d1 \<noteq> 0"
    by blast+
  show ?thesis
  proof (cases "d_eobRun d1 > 0")
    case False
    with rest have e: "b' = b1" by simp
    from False f(5) have "zigEnd < zig1" by (auto simp: word_gt_0)
    with f(4) e show ?thesis by auto
  next
    case True
    with rest have
      "bindE (refineNonZeroes env b1 zig1 zigEnd (- 1) delta
                (d1\<lparr>d_eobRun := d_eobRun d1 - 1\<rparr>))
         (\<lambda>(zig', b2, d2). Inr (b2, d2)) = Inr (b', d')"
      by simp
    from bindE_drop_Inr [OF this] obtain zig2 where rn:
      "refineNonZeroes env b1 zig1 zigEnd (- 1) delta (d1\<lparr>d_eobRun := d_eobRun d1 - 1\<rparr>)
         = Inr (zig2, b', d')"
      by blast
    from refineNonZeroes_all [OF rn] have z2: "zig2 = max zig1 (zigEnd + 1)" by simp
    from refineNonZeroes_inv [OF rn ze f(1)]
    have s: "\<And>z. z < 64 \<Longrightarrow> z < zig1 \<Longrightarrow> b' ! (unzig ! z) = b1 ! (unzig ! z)"
      by blast
    from refineNonZeroes_bits [OF rn ze f(1)]
    have nb: "\<And>z. zig1 \<le> z \<Longrightarrow> z < zig2 \<Longrightarrow> b1 ! (unzig ! z) \<noteq> 0 \<Longrightarrow>
                correctedBy env delta (b1 ! (unzig ! z)) (b' ! (unzig ! z))"
      by blast
    show ?thesis
    proof (intro allI impI)
      fix z
      assume a: "zigStart \<le> z \<and> z \<le> zigEnd \<and> b ! (unzig ! z) \<noteq> 0"
      with ze have z64: "z < 64" by simp
      show "correctedBy env delta (b ! (unzig ! z)) (b' ! (unzig ! z))"
      proof (cases "z < zig1")
        case True
        with s [OF z64] f(4) [of z] a show ?thesis by simp
      next
        case False
        then have g: "zig1 \<le> z" by simp
        from a z2 have "z < zig2" by (simp add: less_max_iff_disj)
        with nb [OF g] f(3) [OF z64 g] a show ?thesis by simp
      qed
    qed
  qed
qed

lemma never_zero:
  assumes c: "corrected (push_bit al 1) x y" and x: "x \<noteq> 0" and al: "al < 31"
  shows "y \<noteq> 0"
proof -
  from c consider (same) "y = x"
    | (up) "0 \<le> sint x" "y = x + push_bit al 1"
    | (down) "sint x < 0" "y = x - push_bit al 1"
    by (auto simp: corrected_def split: if_splits)
  then show ?thesis
  proof cases
    case same
    with x show ?thesis by simp
  next
    case up
    show ?thesis
    proof
      assume "y = 0"
      with up(2) have xe: "x = 0 - push_bit al 1" by (simp add: eq_neg_iff_add_eq_0)
      have "sint (0 - push_bit al 1 :: 32 word) = signed_take_bit 31 (- (2 ^ al))"
        using sint_word_diff [of "0 :: 32 word" "push_bit al 1"] al
        by (simp add: sint_delta sint_pow2)
      also have "\<dots> = - (2 ^ al)"
      proof (rule signed_take_bit_int_eq_self)
        show "- (2 ^ 31) \<le> - ((2 :: int) ^ al)" using pow_al_bound [OF al] by simp
        show "- ((2 :: int) ^ al) < 2 ^ 31" by (rule less_trans [of _ 0]) simp_all
      qed
      finally have "sint x = - (2 ^ al)" using xe by simp
      then have "sint x < 0" by simp
      with up(1) show False by simp
    qed
  next
    case down
    show ?thesis
    proof
      assume "y = 0"
      with down(2) have "x = push_bit al 1" by simp
      with sint_delta [OF al] have "sint x = 2 ^ al" by simp
      with down(1) show False by simp
    qed
  qed
qed

lemma correct1_sign:
  assumes x: "x \<noteq> 0" and al: "al < 31"
    and lo: "- (2 ^ 31) + 2 ^ al \<le> sint x" and hi: "sint x < 2 ^ 31 - 2 ^ al"
  shows "(sint x < 0 \<longleftrightarrow> sint (correct1 (push_bit al 1) bt x) < 0)
       \<and> \<bar>sint (correct1 (push_bit al 1) bt x)\<bar> = \<bar>sint x\<bar> + (if bt then 2 ^ al else 0)"
proof (cases bt)
  case False
  then show ?thesis by (simp add: correct1_def)
next
  case True
  define k :: int where "k = 2 ^ al"
  have p: "0 < k" by (simp add: k_def)
  show ?thesis
  proof (cases "0 \<le> sint x")
    case pos: True
    from sint_add_delta [OF al pos hi] True pos
    have e: "sint (correct1 (push_bit al 1) bt x) = sint x + k"
      by (simp add: correct1_def k_def)
    from pos p have "(sint x < 0 \<longleftrightarrow> sint x + k < 0) \<and> \<bar>sint x + k\<bar> = \<bar>sint x\<bar> + k"
      by arith
    with True e show ?thesis by (simp add: k_def)
  next
    case neg: False
    then have n: "sint x < 0" by simp
    from sint_sub_delta [OF al n lo] True n
    have e: "sint (correct1 (push_bit al 1) bt x) = sint x - k"
      by (simp add: correct1_def k_def)
    from n p have "(sint x < 0 \<longleftrightarrow> sint x - k < 0) \<and> \<bar>sint x - k\<bar> = \<bar>sint x\<bar> + k"
      by arith
    with True e show ?thesis by (simp add: k_def)
  qed
qed


lemma refine_dc_bit:
  assumes "refine env b ta 0 zigEnd delta d = Inr (b', d')"
  shows "\<exists>bt. decodeBit env d = Inr (bt, d') \<and> b' = (if bt then b[0 := b ! 0 OR delta] else b)"
proof -
  from assms have body: "bindE (decodeBit env d) (\<lambda>(bt, d1).
                Inr (if bt then b[0 := b ! 0 OR delta] else b, d1)) = Inr (b', d')"
    by (simp add: refine_def split: if_splits)
  show ?thesis
  proof (cases "decodeBit env d")
    case (Inl e)
    with body show ?thesis by simp
  next
    case (Inr x)
    obtain bt d1 where "x = (bt, d1)" by (cases x)
    with body Inr show ?thesis by (cases bt) auto
  qed
qed


text \<open>
  Claim C4, as amended. Let refine return without error for \<^verbatim>\<open>delta = 1 << al\<close>, on a
  block of 64 coefficients and a band below 64, and let \<open>x\<close> and \<open>y\<close> be the coefficient at
  the zig-zag index \<open>z\<close> before and after. Whatever the values, a coefficient that is not
  zero is never set to zero.
  \<^item> DC refinement (\<^verbatim>\<open>zigStart = 0\<close>): the one bit that decodeBit returns in the state at
    entry decides the whole block: bit set, \<^verbatim>\<open>1 << al\<close> is ORed into coefficient 0; bit
    clear, the block is unchanged. No other coefficient changes and no sign changes.
  \<^item> AC refinement: outside the band nothing changes. A coefficient of the band that is
    not zero gets exactly one correction, for a bit that decodeBit returned: bit clear,
    \<open>y = x\<close>; bit set, \<open>y = x + delta\<close> when \<open>x \<ge> 0\<close> and \<open>y = x - delta\<close> when \<open>x < 0\<close>, in int32
    arithmetic. When that arithmetic does not overflow, that is
    \<open>- 2^31 + delta \<le> x < 2^31 - delta\<close>, the sign is kept and the magnitude is unchanged
    for the clear bit and grows by exactly \<open>delta\<close> for the set bit.
  \<^item> The bit is the one read when the walk reaches the coefficient: at a coefficient that
    is not zero, refineNonZeroes, from a state in which decodeBit returns \<open>bit\<close>, goes on
    at the next index with the coefficient corrected for \<open>bit\<close> and the state that
    decodeBit returned.
  This holds for every result of the primitives (every \<open>env\<close>).
\<close>

theorem C4_refine:
  assumes r: "refine env b ta zigStart zigEnd delta d = Inr (b', d')"
    and dl: "delta = push_bit al 1" and al: "al < 31"
    and len: "length b = blockSize" and ze: "zigEnd < blockSize" and z: "z < blockSize"
  shows "(let x = b ! (unzig ! z); y = b' ! (unzig ! z)
          in (x \<noteq> 0 \<longrightarrow> y \<noteq> 0)
           \<and> (zigStart = 0 \<longrightarrow>
                (\<exists>bt. decodeBit env d = Inr (bt, d')
                      \<and> b' = (if bt then b[0 := b ! 0 OR delta] else b))
                \<and> (z \<noteq> 0 \<longrightarrow> y = x)
                \<and> (x \<noteq> 0 \<longrightarrow> (sint x < 0 \<longleftrightarrow> sint y < 0)))
           \<and> (zigStart \<noteq> 0 \<longrightarrow>
                (z < zigStart \<or> zigEnd < z \<longrightarrow> y = x)
                \<and> (zigStart \<le> z \<and> z \<le> zigEnd \<and> x \<noteq> 0 \<longrightarrow>
                      (\<exists>dz bt dz'. decodeBit env dz = Inr (bt, dz')
                          \<and> y = correct1 delta bt x
                          \<and> (- (2 ^ 31) + 2 ^ al \<le> sint x \<and> sint x < 2 ^ 31 - 2 ^ al \<longrightarrow>
                                (sint x < 0 \<longleftrightarrow> sint y < 0)
                                \<and> \<bar>sint y\<bar> = \<bar>sint x\<bar> + (if bt then 2 ^ al else 0))))))
         \<and> (\<forall>b0 zig nz d0 bt d1.
               zig \<le> zigEnd \<and> b0 ! (unzig ! zig) \<noteq> 0 \<and> decodeBit env d0 = Inr (bt, d1) \<longrightarrow>
                 refineNonZeroes env b0 zig zigEnd nz delta d0
                   = refineNonZeroes env
                       (b0[unzig ! zig := correct1 delta bt (b0 ! (unzig ! zig))])
                       (zig + 1) zigEnd nz delta d1)"
proof -
  let ?x = "b ! (unzig ! z)" and ?y = "b' ! (unzig ! z)"
  let ?R = "\<lambda>dz bt dz'. decodeBit env dz = Inr (bt, dz')
                \<and> ?y = correct1 delta bt ?x
                \<and> (- (2 ^ 31) + 2 ^ al \<le> sint ?x \<and> sint ?x < 2 ^ 31 - 2 ^ al \<longrightarrow>
                      (sint ?x < 0 \<longleftrightarrow> sint ?y < 0)
                      \<and> \<bar>sint ?y\<bar> = \<bar>sint ?x\<bar> + (if bt then 2 ^ al else 0))"
  from len ze z have l: "length b = 64" and ze': "zigEnd < 64" and z': "z < 64"
    by (simp_all add: blockSize_def)
  have dc_bit: "\<exists>bt. decodeBit env d = Inr (bt, d')
                      \<and> b' = (if bt then b[0 := b ! 0 OR delta] else b)"
    if "zigStart = 0"
    using r that refine_dc_bit [of env b ta zigEnd delta d b' d'] by simp
  have dc_rest: "?y = ?x" if "zigStart = 0" "z \<noteq> 0"
  proof -
    from dc_bit [OF that(1)] obtain bt where
      bt: "b' = (if bt then b[0 := b ! 0 OR delta] else b)" by blast
    from that(2) z' unzig_pos [of z] have "unzig ! z \<noteq> 0" by simp
    with bt show ?thesis by simp
  qed
  have dc_sg: "?y \<noteq> 0 \<and> (sint ?x < 0 \<longleftrightarrow> sint ?y < 0)" if zs: "zigStart = 0" and x0: "?x \<noteq> 0"
  proof -
    from dc_bit [OF zs] obtain bt where
      bt: "b' = (if bt then b[0 := b ! 0 OR delta] else b)" by blast
    show ?thesis
    proof (cases "z = 0 \<and> bt")
      case True
      with bt l have "?y = ?x OR delta" by (simp add: unzig_0)
      with dl or_delta_sign [OF al, of ?x] or_delta_nonzero [OF x0, of delta]
      show ?thesis by simp
    next
      case False
      have "?y = ?x"
      proof (cases "z = 0")
        case True
        with False bt show ?thesis by simp
      next
        case False
        from dc_rest [OF zs this] show ?thesis .
      qed
      with x0 show ?thesis by simp
    qed
  qed
  have ac_out: "?y = ?x" if "zigStart \<noteq> 0" "z < zigStart \<or> zigEnd < z"
    using refine_ac [OF r that(1) ze' l, rule_format, OF z', THEN conjunct1] that(2)
    by (rule mp)
  have ac_nz: "?y \<noteq> 0" if zs: "zigStart \<noteq> 0" and x0: "?x \<noteq> 0"
  proof -
    from refine_ac [OF r zs ze' l, rule_format, OF z', THEN conjunct2] x0
    have "corrected delta ?x ?y" by (rule mp)
    with dl have "corrected (push_bit al 1) ?x ?y" by simp
    from never_zero [OF this x0 al] show ?thesis .
  qed
  have ac_bits: "\<exists>dz bt dz'. ?R dz bt dz'"
    if zs: "zigStart \<noteq> 0" and band: "zigStart \<le> z" "z \<le> zigEnd" and x0: "?x \<noteq> 0"
  proof -
    from band x0 have "zigStart \<le> z \<and> z \<le> zigEnd \<and> ?x \<noteq> 0" by simp
    from refine_ac_bits [OF r zs ze' l, rule_format, of z, OF this]
    have "correctedBy env delta ?x ?y" .
    then obtain dz bt dz' where b: "decodeBit env dz = Inr (bt, dz')"
      and y: "?y = correct1 delta bt ?x"
      unfolding correctedBy_def by (elim exE conjE)
    have sgn: "- (2 ^ 31) + 2 ^ al \<le> sint ?x \<and> sint ?x < 2 ^ 31 - 2 ^ al \<longrightarrow>
                (sint ?x < 0 \<longleftrightarrow> sint ?y < 0)
                \<and> \<bar>sint ?y\<bar> = \<bar>sint ?x\<bar> + (if bt then 2 ^ al else 0)"
    proof
      assume bd: "- (2 ^ 31) + 2 ^ al \<le> sint ?x \<and> sint ?x < 2 ^ 31 - 2 ^ al"
      from correct1_sign [OF x0 al conjunct1 [OF bd] conjunct2 [OF bd], of bt]
      show "(sint ?x < 0 \<longleftrightarrow> sint ?y < 0)
                \<and> \<bar>sint ?y\<bar> = \<bar>sint ?x\<bar> + (if bt then 2 ^ al else 0)"
        unfolding y dl .
    qed
    have "?R dz bt dz'" by (rule conjI [OF b conjI [OF y sgn]])
    then have "\<exists>dz'. ?R dz bt dz'" by (rule exI)
    then have "\<exists>bt dz'. ?R dz bt dz'" by (rule exI)
    then show ?thesis by (rule exI)
  qed
  have nz: "?x \<noteq> 0 \<longrightarrow> ?y \<noteq> 0"
  proof
    assume x0: "?x \<noteq> 0"
    show "?y \<noteq> 0"
    proof (cases "zigStart = 0")
      case True
      from dc_sg [OF True x0] show ?thesis by (rule conjunct1)
    next
      case False
      from ac_nz [OF False x0] show ?thesis .
    qed
  qed
  have dc: "zigStart = 0 \<longrightarrow>
                (\<exists>bt. decodeBit env d = Inr (bt, d')
                      \<and> b' = (if bt then b[0 := b ! 0 OR delta] else b))
                \<and> (z \<noteq> 0 \<longrightarrow> ?y = ?x)
                \<and> (?x \<noteq> 0 \<longrightarrow> (sint ?x < 0 \<longleftrightarrow> sint ?y < 0))"
  proof (intro impI conjI)
    assume zs: "zigStart = 0"
    from dc_bit [OF zs] show "\<exists>bt. decodeBit env d = Inr (bt, d')
                      \<and> b' = (if bt then b[0 := b ! 0 OR delta] else b)" .
    { assume "z \<noteq> 0"
      from dc_rest [OF zs this] show "?y = ?x" . }
    { assume "?x \<noteq> 0"
      from dc_sg [OF zs this] show "sint ?x < 0 \<longleftrightarrow> sint ?y < 0" by (rule conjunct2) }
  qed
  have ac: "zigStart \<noteq> 0 \<longrightarrow>
                (z < zigStart \<or> zigEnd < z \<longrightarrow> ?y = ?x)
                \<and> (zigStart \<le> z \<and> z \<le> zigEnd \<and> ?x \<noteq> 0 \<longrightarrow> (\<exists>dz bt dz'. ?R dz bt dz'))"
  proof (intro impI conjI)
    assume zs: "zigStart \<noteq> 0"
    { assume "z < zigStart \<or> zigEnd < z"
      from ac_out [OF zs this] show "?y = ?x" . }
    { assume a: "zigStart \<le> z \<and> z \<le> zigEnd \<and> ?x \<noteq> 0"
      from ac_bits [OF zs conjunct1 [OF a] conjunct1 [OF conjunct2 [OF a]]
                      conjunct2 [OF conjunct2 [OF a]]]
      show "\<exists>dz bt dz'. ?R dz bt dz'" . }
  qed
  have step: "\<forall>b0 zig nz d0 bt d1.
               zig \<le> zigEnd \<and> b0 ! (unzig ! zig) \<noteq> 0 \<and> decodeBit env d0 = Inr (bt, d1) \<longrightarrow>
                 refineNonZeroes env b0 zig zigEnd nz delta d0
                   = refineNonZeroes env
                       (b0[unzig ! zig := correct1 delta bt (b0 ! (unzig ! zig))])
                       (zig + 1) zigEnd nz delta d1"
    by (intro allI impI, elim conjE, rule refineNonZeroes_step, assumption+)
  show ?thesis
    unfolding Let_def by (rule conjI [OF conjI [OF nz conjI [OF dc ac]] step])
qed




text \<open>
  An AC refinement with \<^verbatim>\<open>al = 1\<close> of a block whose coefficient at zig-zag index 1 is 4:
  a coefficient is inserted after it, its correction bit is set and an end-of-band run
  follows. The coefficient stays positive with magnitude 4 or 6, and index 7, outside
  the band 1..5, is unchanged.
\<close>

theorem C4_refine_witness:
  "(case refine scriptEnv exBlockRef 0 1 5 (push_bit 1 1)
          (newDecoder True 8 8 [mkComp 1 1 1] [THuff 1, TBit True, TBit True, THuff 0]) of
      Inl e \<Rightarrow> False
    | Inr (b', d') \<Rightarrow>
        b' ! (unzig ! 1) \<noteq> 0 \<and> \<not> sint (b' ! (unzig ! 1)) < 0
        \<and> (\<bar>sint (b' ! (unzig ! 1))\<bar> = 4 \<or> \<bar>sint (b' ! (unzig ! 1))\<bar> = 4 + 2 ^ 1)
        \<and> b' ! (unzig ! 7) = exBlockRef ! (unzig ! 7))"
proof -
  let ?d = "newDecoder True 8 8 [mkComp 1 1 1] [THuff 1, TBit True, TBit True, THuff 0]"
  have "case refine scriptEnv exBlockRef 0 1 5 (push_bit 1 1) ?d of
          Inl e \<Rightarrow> False | Inr r \<Rightarrow> True"
    by code_simp
  then obtain res where res: "refine scriptEnv exBlockRef 0 1 5 (push_bit 1 1) ?d = Inr res"
    by (rule case_InrE)
  obtain b' d' where bd: "res = (b', d')" by (cases res)
  with res have r: "refine scriptEnv exBlockRef 0 1 5 (push_bit 1 1) ?d = Inr (b', d')"
    by simp
  have len: "length exBlockRef = blockSize" by (simp add: exBlockRef_def)
  have x: "exBlockRef ! (unzig ! 1) = 4"
    by (simp add: exBlockRef_def unzig_def blockSize_def)
  have s4: "sint (4 :: 32 word) = 4" by simp
  have a1: "(1 :: nat) < 31" by simp
  have a5: "5 < blockSize" and z1: "1 < blockSize" and z7: "7 < blockSize"
    by (simp_all add: blockSize_def)
  have n: "(1 :: nat) \<noteq> 0" by simp
  note t1 = C4_refine [OF r refl a1 len a5 z1, THEN conjunct1, unfolded Let_def]
  from x have x0: "exBlockRef ! (unzig ! 1) \<noteq> 0" by simp
  from t1 [THEN conjunct1, THEN mp, OF x0] have y0: "b' ! (unzig ! 1) \<noteq> 0" .
  from x0 have band: "(1 :: nat) \<le> 1 \<and> (1 :: nat) \<le> 5 \<and> exBlockRef ! (unzig ! 1) \<noteq> 0"
    by simp
  from x have bound: "- (2 ^ 31) + 2 ^ 1 \<le> sint (exBlockRef ! (unzig ! 1))
                       \<and> sint (exBlockRef ! (unzig ! 1)) < 2 ^ 31 - 2 ^ 1"
    by simp
  from t1 [THEN conjunct2, THEN conjunct2, THEN mp, OF n, THEN conjunct2, THEN mp, OF band]
  obtain bt where sg: "- (2 ^ 31) + 2 ^ 1 \<le> sint (exBlockRef ! (unzig ! 1))
                       \<and> sint (exBlockRef ! (unzig ! 1)) < 2 ^ 31 - 2 ^ 1 \<longrightarrow>
      (sint (exBlockRef ! (unzig ! 1)) < 0 \<longleftrightarrow> sint (b' ! (unzig ! 1)) < 0)
      \<and> \<bar>sint (b' ! (unzig ! 1))\<bar>
          = \<bar>sint (exBlockRef ! (unzig ! 1))\<bar> + (if bt then 2 ^ 1 else 0)"
    by (elim exE conjE)
  from sg [THEN mp, OF bound] x
  have "\<not> sint (b' ! (unzig ! 1)) < 0
        \<and> (\<bar>sint (b' ! (unzig ! 1))\<bar> = 4 \<or> \<bar>sint (b' ! (unzig ! 1))\<bar> = 4 + 2 ^ 1)"
    by (cases bt) simp_all
  with y0 have a: "b' ! (unzig ! 1) \<noteq> 0 \<and> \<not> sint (b' ! (unzig ! 1)) < 0
        \<and> (\<bar>sint (b' ! (unzig ! 1))\<bar> = 4 \<or> \<bar>sint (b' ! (unzig ! 1))\<bar> = 4 + 2 ^ 1)"
    by (rule conjI)
  have out: "(7 :: nat) < 1 \<or> (5 :: nat) < 7" by simp
  note t7 = C4_refine [OF r refl a1 len a5 z7, THEN conjunct1, unfolded Let_def]
  from t7 [THEN conjunct2, THEN conjunct2, THEN mp, OF n, THEN conjunct1, THEN mp, OF out]
  have b: "b' ! (unzig ! 7) = exBlockRef ! (unzig ! 7)" .
  from a b show ?thesis by (simp only: r sum.case prod.case) simp
qed


text \<open>
  The claim as stated fails where the int32 addition overflows: the coefficient
  \<open>2^31 - 1\<close> at zig-zag index 1, refined with \<^verbatim>\<open>al = 0\<close> under a pending end-of-band run
  with its correction bit set, becomes \<open>- 2^31\<close>.
\<close>

theorem C4_counterexample:
  "sint (exBlockMax ! (unzig ! 1)) > 0
   \<and> (case refine scriptEnv exBlockMax 0 1 1 (push_bit 0 1)
              ((newDecoder True 8 8 [mkComp 1 1 1] [TBit True])\<lparr>d_eobRun := 1\<rparr>) of
        Inl e \<Rightarrow> False
      | Inr (b', d') \<Rightarrow> sint (b' ! (unzig ! 1)) < 0)"
  by code_simp



section \<open>The loops of processSOS\<close>

subsection \<open>What the block decoders leave unchanged\<close>


lemma dframe_refl [simp]: "dframe d d"
  by (simp add: dframe_def)

lemma dframe_trans: "dframe d d1 \<Longrightarrow> dframe d1 d2 \<Longrightarrow> dframe d d2"
  by (simp add: dframe_def)

lemma dframe_eobRun [simp]: "dframe d (d'\<lparr>d_eobRun := e\<rparr>) = dframe d d'"
  by (simp add: dframe_def)

lemma decodeHuffman_frame:
  "decodeHuffman env tc th d = Inr (x, d') \<Longrightarrow> dframe d d' \<and> d_eobRun d' = d_eobRun d"
  by (auto simp: decodeHuffman_def dframe_def split: sum.splits)

lemma decodeBit_frame:
  "decodeBit env d = Inr (x, d') \<Longrightarrow> dframe d d' \<and> d_eobRun d' = d_eobRun d"
  by (auto simp: decodeBit_def dframe_def split: sum.splits)

lemma decodeBits_frame:
  "decodeBits env n d = Inr (x, d') \<Longrightarrow> dframe d d' \<and> d_eobRun d' = d_eobRun d"
  by (auto simp: decodeBits_def dframe_def split: sum.splits)

lemma receiveExtend_frame:
  "receiveExtend env t d = Inr (x, d') \<Longrightarrow> dframe d d' \<and> d_eobRun d' = d_eobRun d"
  by (auto simp: receiveExtend_def dframe_def split: sum.splits)

lemma readEobRun_frame: "readEobRun env val0 d = Inr d' \<Longrightarrow> dframe d d'"
proof -
  assume r: "readEobRun env val0 d = Inr d'"
  show ?thesis
  proof (cases "val0 = 0")
    case True
    with r show ?thesis by (auto simp: readEobRun_def Let_def dframe_def)
  next
    case False
    let ?d1 = "d\<lparr>d_eobRun := push_bit (unat val0) 1\<rparr>"
    from r False have b: "bindE (decodeBits env (unat val0) ?d1) (\<lambda>(bits, d2).
                Inr (d2\<lparr>d_eobRun := d_eobRun d2 OR ucast bits\<rparr>)) = Inr d'"
      by (simp add: readEobRun_def Let_def)
    show ?thesis
    proof (cases "decodeBits env (unat val0) ?d1")
      case (Inl e)
      with b show ?thesis by simp
    next
      case (Inr x)
      obtain bits d2 where x: "x = (bits, d2)" by (cases x)
      with Inr decodeBits_frame [of env "unat val0" ?d1 bits d2] have "dframe ?d1 d2" by simp
      then have "dframe d d2" by (simp add: dframe_def)
      with b Inr x show ?thesis by auto
    qed
  qed
qed

lemma decodeAC_frame:
  "decodeAC env ta zigEnd al zig st = Inr st' \<Longrightarrow> dframe (snd st) (snd st')"
proof (induction "zigEnd + 1 - zig" arbitrary: zig st rule: less_induct)
  case less
  from less.prems(1) show ?case
  proof (cases rule: decodeAC_cases)
    case stop
    then show ?thesis by simp
  next
    case (coef val d1 ac d2)
    have m: "zigEnd + 1 - (zig + unat (drop_bit 4 val) + 1) < zigEnd + 1 - zig"
      using coef(4) by simp
    from less.hyps [OF m coef(6)] decodeHuffman_frame [OF coef(2)]
      receiveExtend_frame [OF coef(5)]
    show ?thesis by (auto intro: dframe_trans)
  next
    case (over val d1)
    with decodeHuffman_frame [OF over(2)] show ?thesis by simp
  next
    case (eob val d1 d2)
    with decodeHuffman_frame [OF eob(2)] readEobRun_frame [OF eob(5)]
    show ?thesis by (auto intro: dframe_trans)
  next
    case (zrl val d1)
    have m: "zigEnd + 1 - (zig + 0x0f + 1) < zigEnd + 1 - zig" using zrl(1) by simp
    from less.hyps [OF m zrl(5)] decodeHuffman_frame [OF zrl(2)]
    show ?thesis by (auto intro: dframe_trans)
  qed
qed

lemma refineNonZeroes_frame:
  "refineNonZeroes env b zig zigEnd nz delta d = Inr (zig', b', d') \<Longrightarrow>
     dframe d d' \<and> d_eobRun d' = d_eobRun d"
proof (induction "zigEnd + 1 - zig" arbitrary: zig b nz d rule: less_induct)
  case less
  from less.prems(1) show ?case
  proof (cases rule: refineNonZeroes_cases)
    case stop
    then show ?thesis by simp
  next
    case brk
    then show ?thesis by simp
  next
    case skip
    have m: "zigEnd + 1 - (zig + 1) < zigEnd + 1 - zig" using skip(1) by simp
    from less.hyps [OF m skip(4)] show ?thesis .
  next
    case (bit0 d1)
    have m: "zigEnd + 1 - (zig + 1) < zigEnd + 1 - zig" using bit0(1) by simp
    from less.hyps [OF m bit0(4)] decodeBit_frame [OF bit0(3)]
    show ?thesis by (auto intro: dframe_trans)
  next
    case (bit1 d1)
    have m: "zigEnd + 1 - (zig + 1) < zigEnd + 1 - zig" using bit1(1) by simp
    from less.hyps [OF m bit1(4)] decodeBit_frame [OF bit1(3)]
    show ?thesis by (auto intro: dframe_trans)
  qed
qed


lemma refineSymbol_frame:
  assumes "refineSymbol env ta delta d = Inr (r, d')"
  shows "dframe d d'"
proof -
  from assms obtain x where x: "decodeHuffman env acTable ta d = Inr x"
    by (cases "decodeHuffman env acTable ta d") (simp_all add: refineSymbol_def)
  obtain val d1 where xd: "x = (val, d1)" by (cases x)
  from x xd decodeHuffman_frame [of env acTable ta d val d1] have f1: "dframe d d1" by simp
  let ?val0 = "drop_bit 4 val" and ?val1 = "val AND 0x0f"
  from assms x xd have body:
    "(if ?val1 = 0 then
        (if ?val0 \<noteq> 0x0f
         then bindE (readEobRun env ?val0 d1) (\<lambda>d2. Inr (None, d2))
         else Inr (Some (0, ?val0), d1))
      else if ?val1 = 1 then
        bindE (decodeBit env d1) (\<lambda>(bt, d2).
          Inr (Some (if \<not> bt then - delta else delta, ?val0), d2))
      else Inl (FormatError ''unexpected Huffman code'')) = Inr (r, d')"
    by (simp add: refineSymbol_def Let_def)
  show ?thesis
  proof (cases "?val1 = 0")
    case z: True
    show ?thesis
    proof (cases "?val0 \<noteq> 0x0f")
      case True
      with body z have b: "bindE (readEobRun env ?val0 d1) (\<lambda>d2. Inr (None, d2)) = Inr (r, d')"
        by simp
      then have "readEobRun env ?val0 d1 = Inr d'"
        by (cases "readEobRun env ?val0 d1") simp_all
      from readEobRun_frame [OF this] f1 show ?thesis by (rule dframe_trans [rotated])
    next
      case False
      with body z f1 show ?thesis by simp
    qed
  next
    case nz: False
    show ?thesis
    proof (cases "?val1 = 1")
      case True
      with body nz have b: "bindE (decodeBit env d1) (\<lambda>(bt, d2).
          Inr (Some (if \<not> bt then - delta else delta, ?val0), d2)) = Inr (r, d')"
        by simp
      show ?thesis
      proof (cases "decodeBit env d1")
        case (Inl e)
        with b show ?thesis by simp
      next
        case (Inr y)
        obtain bt d2 where y: "y = (bt, d2)" by (cases y)
        with b Inr have "d' = d2" by simp
        with Inr y decodeBit_frame [of env d1 bt d2] f1 show ?thesis
          by (auto intro: dframe_trans)
      qed
    next
      case False
      with body nz show ?thesis by simp
    qed
  qed
qed

lemma refineLoop_frame:
  "refineLoop env ta zigEnd delta zig st = Inr (zig', b', d') \<Longrightarrow> dframe (snd st) d'"
proof (induction "zigEnd + 1 - zig" arbitrary: zig st rule: less_induct)
  case less
  from less.prems(1) show ?case
  proof (cases rule: refineLoop_cases)
    case stop
    then show ?thesis by auto
  next
    case (brk d1)
    with refineSymbol_frame [OF brk(2)] show ?thesis by auto
  next
    case (step z val0 d1 zig1 b1 d2)
    from refineNonZeroes_zig_le [OF step(3)] step(1,4)
    have m: "zigEnd + 1 - (zig1 + 1) < zigEnd + 1 - zig" by simp
    from less.hyps [OF m step(5)] refineSymbol_frame [OF step(2)]
      refineNonZeroes_frame [OF step(3)]
    show ?thesis by (auto intro: dframe_trans)
  qed
qed

lemma refine_frame:
  assumes r: "refine env b ta zigStart zigEnd delta d = Inr (b', d')"
  shows "dframe d d'
    \<and> (d_eobRun d \<noteq> 0 \<longrightarrow>
         d_eobRun d' = (if zigStart = 0 then d_eobRun d else d_eobRun d - 1))"
proof (cases "zigStart = 0")
  case True
  with r have body: "bindE (decodeBit env d) (\<lambda>(bt, d1).
                Inr (if bt then b[0 := b ! 0 OR delta] else b, d1)) = Inr (b', d')"
    by (simp add: refine_def split: if_splits)
  show ?thesis
  proof (cases "decodeBit env d")
    case (Inl e)
    with body show ?thesis by simp
  next
    case (Inr x)
    obtain bt d1 where x: "x = (bt, d1)" by (cases x)
    with body Inr have "d' = d1" by simp
    with Inr x decodeBit_frame [of env d bt d1] True show ?thesis by simp
  qed
next
  case zs: False
  from r zs have body:
    "bindE (if d_eobRun d = 0 then refineLoop env ta zigEnd delta zigStart (b, d)
            else Inr (zigStart, b, d))
       (\<lambda>(zig, b1, d1).
          if d_eobRun d1 > 0
          then bindE (refineNonZeroes env b1 zig zigEnd (- 1) delta
                        (d1\<lparr>d_eobRun := d_eobRun d1 - 1\<rparr>))
                 (\<lambda>(zig', b2, d2). Inr (b2, d2))
          else Inr (b1, d1)) = Inr (b', d')"
    by (simp add: refine_def)
  let ?m = "if d_eobRun d = 0 then refineLoop env ta zigEnd delta zigStart (b, d)
            else Inr (zigStart, b, d)"
  from body obtain x where x: "?m = Inr x" by (cases ?m) simp_all
  obtain zig1 b1 d1 where xd: "x = (zig1, b1, d1)" by (cases x)
  have first: "dframe d d1 \<and> (d_eobRun d \<noteq> 0 \<longrightarrow> d1 = d)"
  proof (cases "d_eobRun d = 0")
    case True
    with x xd refineLoop_frame [of env ta zigEnd delta zigStart "(b, d)" zig1 b1 d1]
    show ?thesis by simp
  next
    case False
    with x xd show ?thesis by simp
  qed
  from body x xd have rest:
    "(if d_eobRun d1 > 0
      then bindE (refineNonZeroes env b1 zig1 zigEnd (- 1) delta
                    (d1\<lparr>d_eobRun := d_eobRun d1 - 1\<rparr>))
             (\<lambda>(zig', b2, d2). Inr (b2, d2))
      else Inr (b1, d1)) = Inr (b', d')"
    by simp
  show ?thesis
  proof (cases "d_eobRun d1 > 0")
    case False
    with rest have "d' = d1" by simp
    with first False zs show ?thesis by (auto simp: word_gt_0)
  next
    case True
    with rest have
      "bindE (refineNonZeroes env b1 zig1 zigEnd (- 1) delta
                (d1\<lparr>d_eobRun := d_eobRun d1 - 1\<rparr>))
         (\<lambda>(zig', b2, d2). Inr (b2, d2)) = Inr (b', d')"
      by simp
    from bindE_drop_Inr [OF this] obtain zig2 where rn:
      "refineNonZeroes env b1 zig1 zigEnd (- 1) delta (d1\<lparr>d_eobRun := d_eobRun d1 - 1\<rparr>)
         = Inr (zig2, b', d')"
      by blast
    from refineNonZeroes_frame [OF rn]
    have "dframe d1 d'" "d_eobRun d' = d_eobRun d1 - 1" by (simp_all add: dframe_def)
    with first zs show ?thesis by (auto intro: dframe_trans)
  qed
qed


lemma forM_append:
  "forM (xs @ ys) body s = bindE (forM xs body s) (forM ys body)"
  by (induction xs arbitrary: s) (auto split: sum.splits)

lemma forM_map: "forM (map h ns) body s = forM ns (\<lambda>i. body (h i)) s"
  by (induction ns arbitrary: s) (auto split: sum.splits)

lemma forM_cong:
  "(\<And>i s. i \<in> set ns \<Longrightarrow> body i s = body' i s) \<Longrightarrow> forM ns body s = forM ns body' s"
  by (induction ns arbitrary: s) (auto split: sum.splits)

lemma forM_inv:
  assumes "forM ns body s = Inr s'" and "P s"
    and "\<And>i s s'. i \<in> set ns \<Longrightarrow> P s \<Longrightarrow> body i s = Inr s' \<Longrightarrow> P s'"
  shows "P s'"
  using assms
proof (induction ns arbitrary: s)
  case Nil
  then show ?case by simp
next
  case (Cons i ns)
  from Cons.prems(1) obtain s1 where s1: "body i s = Inr s1" "forM ns body s1 = Inr s'"
    by (auto split: sum.splits)
  from Cons.prems(3) [of i s s1] Cons.prems(2) s1(1) have p1: "P s1" by simp
  show ?case
  proof (rule Cons.IH [OF s1(2) p1])
    fix j t t'
    assume "j \<in> set ns" "P t" "body j t = Inr t'"
    then show "P t'" using Cons.prems(3) [of j t t'] by simp
  qed
qed

lemma forM_rows:
  "forM [0..<m] (\<lambda>y. forM [0..<n] (f y)) s
     = forM [0..<m * n] (\<lambda>k. f (k div n) (k mod n)) s"
proof (induction m arbitrary: s)
  case 0
  show ?case by simp
next
  case (Suc m)
  have split: "[0..<Suc m * n] = [0..<m * n] @ map (\<lambda>x. x + m * n) [0..<n]"
    using upt_add_eq_append [of 0 "m * n" n] by (simp add: map_add_upt add.commute)
  have row: "forM (map (\<lambda>x. x + m * n) [0..<n]) (\<lambda>k. f (k div n) (k mod n)) t
               = forM [0..<n] (f m) t" for t
    unfolding forM_map by (rule forM_cong) simp
  have row': "forM (map (\<lambda>x. x + m * n) [0..<n]) (\<lambda>k. f (k div n) (k mod n))
               = forM [0..<n] (f m)"
    by (rule ext) (rule row)
  have "forM [0..<Suc m] (\<lambda>y. forM [0..<n] (f y)) s
          = bindE (forM [0..<m] (\<lambda>y. forM [0..<n] (f y)) s) (forM [0..<n] (f m))"
    by (simp add: forM_append bindE_def split: sum.splits)
  also have "\<dots> = bindE (forM [0..<m * n] (\<lambda>k. f (k div n) (k mod n)) s)
                        (forM (map (\<lambda>x. x + m * n) [0..<n]) (\<lambda>k. f (k div n) (k mod n)))"
    by (simp only: Suc.IH row')
  also have "\<dots> = forM [0..<Suc m * n] (\<lambda>k. f (k div n) (k mod n)) s"
    by (simp only: split forM_append)
  finally show ?case .
qed

lemma mcuLoop_prefix: "mcuLoop env sc mxx myy st = mcuPrefix env sc mxx myy (myy * mxx) st"
  by (simp add: mcuLoop_def mcuPrefix_def forM_rows)


lemma sframe_refl [simp]: "sframe d d"
  by (simp add: sframe_def)

lemma sframe_trans: "sframe d d1 \<Longrightarrow> sframe d1 d2 \<Longrightarrow> sframe d d2"
  by (simp add: sframe_def)

lemma dframe_sframe: "dframe d d' \<Longrightarrow> sframe d d'"
  by (simp add: dframe_def sframe_def)

lemma decodeDC_frame:
  assumes "decodeDC env td al ci (b, dc, d) = Inr (b', dc', d')"
  shows "dframe d d' \<and> d_eobRun d' = d_eobRun d"
proof -
  from assms have body: "bindE (decodeHuffman env dcTable td d) (\<lambda>(val, d1).
           if val > 16 then Inl (UnsupportedError ''excessive DC component'')
           else bindE (receiveExtend env val d1) (\<lambda>(dcDelta, d2).
             let dc' = dc[ci := dc ! ci + dcDelta]
             in Inr (b[0 := push_bit al (dc' ! ci)], dc', d2))) = Inr (b', dc', d')"
    by (simp add: decodeDC_def)
  then obtain x where x: "decodeHuffman env dcTable td d = Inr x"
    by (cases "decodeHuffman env dcTable td d") simp_all
  obtain val d1 where xd: "x = (val, d1)" by (cases x)
  from body x xd have v: "\<not> val > 16" by (auto split: if_splits)
  with body x xd have b2: "bindE (receiveExtend env val d1) (\<lambda>(dcDelta, d2).
             let dc' = dc[ci := dc ! ci + dcDelta]
             in Inr (b[0 := push_bit al (dc' ! ci)], dc', d2)) = Inr (b', dc', d')"
    by simp
  then obtain y where y: "receiveExtend env val d1 = Inr y"
    by (cases "receiveExtend env val d1") simp_all
  obtain dcDelta d2 where yd: "y = (dcDelta, d2)" by (cases y)
  from b2 y yd have "d' = d2" by (simp add: Let_def)
  with decodeHuffman_frame [of env dcTable td d val d1] receiveExtend_frame [of env val d1 dcDelta d2]
    x xd y yd show ?thesis by (auto intro: dframe_trans)
qed

lemma decodeFirst_frame:
  assumes "decodeFirst env sc i (b, dc, d) = Inr (b', dc', d')"
  shows "dframe d d'"
proof -
  let ?ci = "sc_compIndex (s_scan sc ! i)"
  let ?m = "if s_zigStart sc = 0
            then bindE (decodeDC env (sc_td (s_scan sc ! i)) (s_al sc) ?ci (b, dc, d))
                   (\<lambda>st1. Inr (s_zigStart sc + 1, st1))
            else Inr (s_zigStart sc, b, dc, d)"
  from assms have body: "bindE ?m (\<lambda>(zig, b, dc, d).
              if zig \<le> s_zigEnd sc \<and> d_eobRun d > 0
              then Inr (b, dc, d\<lparr>d_eobRun := d_eobRun d - 1\<rparr>)
              else bindE (decodeAC env (sc_ta (s_scan sc ! i)) (s_zigEnd sc) (s_al sc) zig (b, d))
                     (\<lambda>(b', d'). Inr (b', dc, d'))) = Inr (b', dc', d')"
    by (simp add: decodeFirst_def Let_def)
  then obtain x where x: "?m = Inr x" by (cases ?m) simp_all
  obtain zig b1 dc1 d1 where xd: "x = (zig, b1, dc1, d1)" by (cases x)
  have f1: "dframe d d1"
  proof (cases "s_zigStart sc = 0")
    case True
    with x xd have "decodeDC env (sc_td (s_scan sc ! i)) (s_al sc) ?ci (b, dc, d) = Inr (b1, dc1, d1)"
      by (cases "decodeDC env (sc_td (s_scan sc ! i)) (s_al sc) ?ci (b, dc, d)") auto
    from decodeDC_frame [OF this] show ?thesis by simp
  next
    case False
    with x xd show ?thesis by simp
  qed
  from body x xd have rest:
    "(if zig \<le> s_zigEnd sc \<and> d_eobRun d1 > 0
      then Inr (b1, dc1, d1\<lparr>d_eobRun := d_eobRun d1 - 1\<rparr>)
      else bindE (decodeAC env (sc_ta (s_scan sc ! i)) (s_zigEnd sc) (s_al sc) zig (b1, d1))
             (\<lambda>(b', d'). Inr (b', dc1, d'))) = Inr (b', dc', d')"
    by simp
  show ?thesis
  proof (cases "zig \<le> s_zigEnd sc \<and> d_eobRun d1 > 0")
    case True
    with rest have "d' = d1\<lparr>d_eobRun := d_eobRun d1 - 1\<rparr>" by simp
    with f1 show ?thesis by simp
  next
    case False
    with rest have "bindE (decodeAC env (sc_ta (s_scan sc ! i)) (s_zigEnd sc) (s_al sc) zig (b1, d1))
             (\<lambda>(b', d'). Inr (b', dc1, d')) = Inr (b', dc', d')"
      by (simp only: if_False)
    from bindE_mid_Inr [OF this]
    have "decodeAC env (sc_ta (s_scan sc ! i)) (s_zigEnd sc) (s_al sc) zig (b1, d1) = Inr (b', d')"
      by simp
    from decodeAC_frame [OF this] f1 show ?thesis by (auto intro: dframe_trans)
  qed
qed

lemma decodeBlock_frame:
  assumes "decodeBlock env sc i (b, dc, d) = Inr (b', dc', d')"
  shows "dframe d d'"
proof (cases "s_ah sc \<noteq> 0")
  case True
  with assms have "bindE (refine env b (sc_ta (s_scan sc ! i)) (s_zigStart sc) (s_zigEnd sc)
                       (push_bit (s_al sc) 1) d)
                (\<lambda>(b', d'). Inr (b', dc, d')) = Inr (b', dc', d')"
    by (simp add: decodeBlock_def)
  from bindE_mid_Inr [OF this] refine_frame show ?thesis by blast
next
  case False
  with assms have "decodeFirst env sc i (b, dc, d) = Inr (b', dc', d')"
    by (simp add: decodeBlock_def)
  then show ?thesis by (rule decodeFirst_frame)
qed

text \<open>One visited block: what processBlock leaves of the state.\<close>

lemma processBlock_cases:
  assumes "processBlock env sc mxx i bx byy st = Inr st'"
  obtains b b' dc' d' where
    "loadBlock (st_d st) (sc_compIndex (s_scan sc ! i))
       (byy * mxx * comp_h (d_comp (st_d st) ! sc_compIndex (s_scan sc ! i)) + bx) = Inr b"
    "decodeBlock env sc i (b, st_dc st, st_d st) = Inr (b', dc', d')"
    "d_progressive d' \<Longrightarrow>
       st' = st\<lparr>st_d := d'\<lparr>d_progCoeffs :=
                 (d_progCoeffs d')[sc_compIndex (s_scan sc ! i) :=
                    (d_progCoeffs d' ! sc_compIndex (s_scan sc ! i))
                      [byy * mxx * comp_h (d_comp (st_d st) ! sc_compIndex (s_scan sc ! i)) + bx
                         := b']]\<rparr>,
               st_dc := dc'\<rparr>"
    "\<not> d_progressive d' \<Longrightarrow>
       \<exists>b'' dst. reconstructBlock env d' b' bx byy (sc_compIndex (s_scan sc ! i)) = Inr (b'', dst)
         \<and> st' = assembleTile env (sc_compIndex (s_scan sc ! i)) dst bx byy
                   (st\<lparr>st_d := d', st_dc := dc'\<rparr>)"
proof -
  let ?ci = "sc_compIndex (s_scan sc ! i)"
  let ?k = "byy * mxx * comp_h (d_comp (st_d st) ! ?ci) + bx"
  from assms have body: "bindE (loadBlock (st_d st) ?ci ?k) (\<lambda>b.
         bindE (decodeBlock env sc i (b, st_dc st, st_d st)) (\<lambda>(b', dc', d').
           if d_progressive d'
           then Inr (st\<lparr>st_d := d'\<lparr>d_progCoeffs :=
                               (d_progCoeffs d')[?ci := (d_progCoeffs d' ! ?ci)[?k := b']]\<rparr>,
                        st_dc := dc'\<rparr>)
           else bindE (reconstructBlock env d' b' bx byy ?ci) (\<lambda>(b'', dst).
                  Inr (assembleTile env ?ci dst bx byy
                         (st\<lparr>st_d := d', st_dc := dc'\<rparr>))))) = Inr st'"
    by (simp add: processBlock_def Let_def)
  then obtain b where b: "loadBlock (st_d st) ?ci ?k = Inr b"
    by (cases "loadBlock (st_d st) ?ci ?k") simp_all
  with body have body2: "bindE (decodeBlock env sc i (b, st_dc st, st_d st)) (\<lambda>(b', dc', d').
           if d_progressive d'
           then Inr (st\<lparr>st_d := d'\<lparr>d_progCoeffs :=
                               (d_progCoeffs d')[?ci := (d_progCoeffs d' ! ?ci)[?k := b']]\<rparr>,
                        st_dc := dc'\<rparr>)
           else bindE (reconstructBlock env d' b' bx byy ?ci) (\<lambda>(b'', dst).
                  Inr (assembleTile env ?ci dst bx byy
                         (st\<lparr>st_d := d', st_dc := dc'\<rparr>)))) = Inr st'"
    by simp
  then obtain x where x: "decodeBlock env sc i (b, st_dc st, st_d st) = Inr x"
    by (cases "decodeBlock env sc i (b, st_dc st, st_d st)") simp_all
  obtain b' dc' d' where xd: "x = (b', dc', d')" by (cases x)
  from body2 x xd have rest: "(if d_progressive d'
           then Inr (st\<lparr>st_d := d'\<lparr>d_progCoeffs :=
                               (d_progCoeffs d')[?ci := (d_progCoeffs d' ! ?ci)[?k := b']]\<rparr>,
                        st_dc := dc'\<rparr>)
           else bindE (reconstructBlock env d' b' bx byy ?ci) (\<lambda>(b'', dst).
                  Inr (assembleTile env ?ci dst bx byy
                         (st\<lparr>st_d := d', st_dc := dc'\<rparr>)))) = Inr st'"
    by simp
  have p: "st' = st\<lparr>st_d := d'\<lparr>d_progCoeffs :=
                 (d_progCoeffs d')[?ci := (d_progCoeffs d' ! ?ci)[?k := b']]\<rparr>,
               st_dc := dc'\<rparr>" if "d_progressive d'"
    using rest that by simp
  have q: "\<exists>b'' dst. reconstructBlock env d' b' bx byy ?ci = Inr (b'', dst)
         \<and> st' = assembleTile env ?ci dst bx byy (st\<lparr>st_d := d', st_dc := dc'\<rparr>)"
    if "\<not> d_progressive d'"
  proof -
    from rest that have r2: "bindE (reconstructBlock env d' b' bx byy ?ci) (\<lambda>(b'', dst).
                  Inr (assembleTile env ?ci dst bx byy
                         (st\<lparr>st_d := d', st_dc := dc'\<rparr>))) = Inr st'"
      by simp
    then obtain y where y: "reconstructBlock env d' b' bx byy ?ci = Inr y"
      by (cases "reconstructBlock env d' b' bx byy ?ci") simp_all
    obtain b'' dst where "y = (b'', dst)" by (cases y)
    with r2 y show ?thesis by auto
  qed
  from b x xd p q that show thesis by blast
qed

lemma assembleTile_keeps:
  "st_d (assembleTile env ci dst bx byy st) = st_d st
   \<and> st_dc (assembleTile env ci dst bx byy st) = st_dc st
   \<and> st_blockCount (assembleTile env ci dst bx byy st) = st_blockCount st
   \<and> st_mcu (assembleTile env ci dst bx byy st) = st_mcu st
   \<and> st_expectedRST (assembleTile env ci dst bx byy st) = st_expectedRST st"
  by (simp add: assembleTile_def Let_def)

lemma processBlock_frame:
  assumes "processBlock env sc mxx i bx byy st = Inr st'"
  shows "st_blockCount st' = st_blockCount st \<and> st_mcu st' = st_mcu st
       \<and> st_expectedRST st' = st_expectedRST st \<and> sframe (st_d st) (st_d st')"
  using assms
proof (cases rule: processBlock_cases)
  case (1 b b' dc' d')
  from decodeBlock_frame [OF 1(2)] have f: "dframe (st_d st) d'" .
  show ?thesis
  proof (cases "d_progressive d'")
    case True
    from 1(3) [OF True] f show ?thesis by (simp add: dframe_def sframe_def)
  next
    case False
    from 1(4) [OF False] obtain b'' dst where
      "st' = assembleTile env (sc_compIndex (s_scan sc ! i)) dst bx byy (st\<lparr>st_d := d', st_dc := dc'\<rparr>)"
      by blast
    with f show ?thesis by (simp add: assembleTile_keeps dframe_sframe)
  qed
qed

lemma blockStep_frame:
  assumes "blockStep env sc mxx my mx i j st = Inr st'"
  shows "st_mcu st' = st_mcu st \<and> st_expectedRST st' = st_expectedRST st
       \<and> sframe (st_d st) (st_d st')
       \<and> st_blockCount st' = (if s_nComp sc = 1 then st_blockCount st + 1 else st_blockCount st)"
proof (cases "s_nComp sc \<noteq> 1")
  case True
  with assms obtain bx byy where "processBlock env sc mxx i bx byy st = Inr st'"
    by (simp add: blockStep_def Let_def)
  from processBlock_frame [OF this] True show ?thesis by simp
next
  case False
  let ?q = "mxx * comp_h (d_comp (st_d st) ! sc_compIndex (s_scan sc ! i))"
  let ?st1 = "st\<lparr>st_blockCount := st_blockCount st + 1\<rparr>"
  show ?thesis
  proof (cases "st_blockCount st mod ?q * 8 \<ge> d_width (st_d st)
              \<or> st_blockCount st div ?q * 8 \<ge> d_height (st_d st)")
    case skip: True
    with assms False have "st' = ?st1" by (simp add: blockStep_def Let_def)
    with False show ?thesis by simp
  next
    case vis: False
    with assms False have "processBlock env sc mxx i (st_blockCount st mod ?q)
        (st_blockCount st div ?q) ?st1 = Inr st'"
      by (simp add: blockStep_def Let_def)
    from processBlock_frame [OF this] False show ?thesis by simp
  qed
qed


lemma forM_upt_inv:
  assumes "forM [0..<k] body s = Inr s'" and "P 0 s"
    and "\<And>i t t'. i < k \<Longrightarrow> P i t \<Longrightarrow> body i t = Inr t' \<Longrightarrow> P (Suc i) t'"
  shows "P k s'"
  using assms
proof (induction k arbitrary: s')
  case 0
  then show ?case by simp
next
  case (Suc k)
  from Suc.prems(1) have "bindE (forM [0..<k] body s) (forM [k] body) = Inr s'"
    by (simp add: forM_append [symmetric])
  then obtain t where t: "forM [0..<k] body s = Inr t" "forM [k] body t = Inr s'"
    by (rule bindE_InrE)
  have "P k t"
  proof (rule Suc.IH [OF t(1) Suc.prems(2)])
    fix i u u'
    assume "i < k" "P i u" "body i u = Inr u'"
    then show "P (Suc i) u'" using Suc.prems(3) [of i u u'] by simp
  qed
  moreover from t(2) have "body k t = Inr s'" by (simp split: sum.splits)
  ultimately show ?case using Suc.prems(3) [of k t s'] by simp
qed

lemma mcuBlocks_frame:
  assumes "mcuBlocks env sc mxx my mx st = Inr st'"
  shows "st_mcu st' = st_mcu st \<and> st_expectedRST st' = st_expectedRST st
       \<and> sframe (st_d st) (st_d st')"
proof -
  let ?P = "\<lambda>t. st_mcu t = st_mcu st \<and> st_expectedRST t = st_expectedRST st
                \<and> sframe (st_d st) (st_d t)"
  have inner: "?P t'" if "forM ns (blockStep env sc mxx my mx i) t = Inr t'" "?P t"
    for ns i t t'
  proof (rule forM_inv [OF that(1), where P = ?P])
    show "?P t" by (rule that(2))
  next
    fix j u u'
    assume "?P u" "blockStep env sc mxx my mx i j u = Inr u'"
    with blockStep_frame [of env sc mxx my mx i j u u'] show "?P u'"
      by (auto intro: sframe_trans)
  qed
  from assms have "forM [0..<s_nComp sc] (\<lambda>i st.
       let compIndex = sc_compIndex (s_scan sc ! i);
           hi = comp_h (d_comp (st_d st) ! compIndex);
           vi = comp_v (d_comp (st_d st) ! compIndex)
       in forM [0..<hi * vi] (blockStep env sc mxx my mx i) st) st = Inr st'"
    by (simp add: mcuBlocks_def)
  then show ?thesis
  proof (rule forM_inv [where P = ?P])
    show "?P st" by simp
  next
    fix i t t'
    assume "?P t" and "(let compIndex = sc_compIndex (s_scan sc ! i);
           hi = comp_h (d_comp (st_d t) ! compIndex);
           vi = comp_v (d_comp (st_d t) ! compIndex)
       in forM [0..<hi * vi] (blockStep env sc mxx my mx i) t) = Inr t'"
    then show "?P t'" using inner by (simp add: Let_def)
  qed
qed

lemma readFull_sframe:
  "readFull env n d = Inr d1 \<Longrightarrow> sframe d d1 \<and> d_eobRun d1 = d_eobRun d"
  by (auto simp: readFull_def sframe_def split: if_splits sum.splits)

text \<open>Lines 369 to 408 with the condition and the new marker spelled out.\<close>

lemma restartStep_eq:
  "restartStep env mxx myy st =
     (if d_ri (st_d st) > 0 \<and> (st_mcu st + 1) mod d_ri (st_d st) = 0
         \<and> st_mcu st + 1 < mxx * myy
      then bindE (readFull env 2 (st_d st)) (\<lambda>d1.
           bindE (if d_tmp d1 ! 0 = 0xff \<and> d_tmp d1 ! 1 = 0x00
                  then readFull env 2 d1 else Inr d1) (\<lambda>d2.
             if d_tmp d2 ! 0 = 0xff \<and> d_tmp d2 ! 1 = st_expectedRST st
             then Inr (st\<lparr>st_mcu := st_mcu st + 1,
                          st_d := d2\<lparr>d_bits := e_bits0 env, d_eobRun := 0\<rparr>,
                          st_dc := replicate maxComponents 0,
                          st_expectedRST :=
                            (if st_expectedRST st + 1 = rst7Marker + 1 then rst0Marker
                             else st_expectedRST st + 1)\<rparr>)
             else Inl (FormatError ''bad RST marker'')))
      else Inr (st\<lparr>st_mcu := st_mcu st + 1\<rparr>))"
  by (auto simp: restartStep_def Let_def intro!: bindE_cong)

lemma next_rst:
  assumes "c < 8"
  shows "(if rst0Marker + of_nat c + 1 = rst7Marker + 1 then rst0Marker
          else rst0Marker + of_nat c + 1) = rst0Marker + of_nat ((c + 1) mod 8)"
proof -
  from assms have "c = 0 \<or> c = 1 \<or> c = 2 \<or> c = 3 \<or> c = 4 \<or> c = 5 \<or> c = 6 \<or> c = 7"
    by arith
  then show ?thesis
    by (elim disjE) (simp_all add: rst0Marker_def rst7Marker_def)
qed

lemma restartStep_frame:
  assumes "restartStep env mxx myy st = Inr st'"
  shows "st_mcu st' = st_mcu st + 1 \<and> sframe (st_d st) (st_d st')
       \<and> st_blockCount st' = st_blockCount st \<and> st_calls st' = st_calls st
       \<and> st_processSOSBuf st' = st_processSOSBuf st"
proof (cases "d_ri (st_d st) > 0 \<and> (st_mcu st + 1) mod d_ri (st_d st) = 0
         \<and> st_mcu st + 1 < mxx * myy")
  case False
  with assms show ?thesis by (auto simp: restartStep_eq)
next
  case True
  with assms have "bindE (readFull env 2 (st_d st)) (\<lambda>d1.
           bindE (if d_tmp d1 ! 0 = 0xff \<and> d_tmp d1 ! 1 = 0x00
                  then readFull env 2 d1 else Inr d1) (\<lambda>d2.
             if d_tmp d2 ! 0 = 0xff \<and> d_tmp d2 ! 1 = st_expectedRST st
             then Inr (st\<lparr>st_mcu := st_mcu st + 1,
                          st_d := d2\<lparr>d_bits := e_bits0 env, d_eobRun := 0\<rparr>,
                          st_dc := replicate maxComponents 0,
                          st_expectedRST :=
                            (if st_expectedRST st + 1 = rst7Marker + 1 then rst0Marker
                             else st_expectedRST st + 1)\<rparr>)
             else Inl (FormatError ''bad RST marker''))) = Inr st'"
    by (simp add: restartStep_eq)
  then obtain d1 where d1: "readFull env 2 (st_d st) = Inr d1"
    and r1: "bindE (if d_tmp d1 ! 0 = 0xff \<and> d_tmp d1 ! 1 = 0x00
                  then readFull env 2 d1 else Inr d1) (\<lambda>d2.
             if d_tmp d2 ! 0 = 0xff \<and> d_tmp d2 ! 1 = st_expectedRST st
             then Inr (st\<lparr>st_mcu := st_mcu st + 1,
                          st_d := d2\<lparr>d_bits := e_bits0 env, d_eobRun := 0\<rparr>,
                          st_dc := replicate maxComponents 0,
                          st_expectedRST :=
                            (if st_expectedRST st + 1 = rst7Marker + 1 then rst0Marker
                             else st_expectedRST st + 1)\<rparr>)
             else Inl (FormatError ''bad RST marker'')) = Inr st'"
    by (rule bindE_InrE)
  from r1 obtain d2 where d2: "(if d_tmp d1 ! 0 = 0xff \<and> d_tmp d1 ! 1 = 0x00
                  then readFull env 2 d1 else Inr d1) = Inr d2"
    and r2: "(if d_tmp d2 ! 0 = 0xff \<and> d_tmp d2 ! 1 = st_expectedRST st
             then Inr (st\<lparr>st_mcu := st_mcu st + 1,
                          st_d := d2\<lparr>d_bits := e_bits0 env, d_eobRun := 0\<rparr>,
                          st_dc := replicate maxComponents 0,
                          st_expectedRST :=
                            (if st_expectedRST st + 1 = rst7Marker + 1 then rst0Marker
                             else st_expectedRST st + 1)\<rparr>)
             else Inl (FormatError ''bad RST marker'')) = Inr st'"
    by (rule bindE_InrE)
  from d2 readFull_sframe [of env 2 d1 d2] have "sframe d1 d2"
    by (auto split: if_splits)
  with readFull_sframe [OF d1] have "sframe (st_d st) d2" by (auto intro: sframe_trans)
  with r2 show ?thesis by (auto simp: sframe_def split: if_splits)
qed

lemma makeImg_keeps:
  "makeImg mxx myy d = Inr d' \<Longrightarrow> sframe d d' \<and> d_eobRun d' = d_eobRun d"
  by (auto simp: makeImg_def sframe_def Let_def split: if_splits)

lemma allocProgCoeffs_keeps:
  "sframe d (allocProgCoeffs sc mxx myy d)
   \<and> d_eobRun (allocProgCoeffs sc mxx myy d) = d_eobRun d"
proof -
  have "sframe d (foldl (\<lambda>d i.
        let compIndex = sc_compIndex (s_scan sc ! i)
        in if d_progCoeffs d ! compIndex = []
           then d\<lparr>d_progCoeffs := (d_progCoeffs d)[compIndex :=
                    replicate (mxx * myy * comp_h (d_comp d ! compIndex)
                                 * comp_v (d_comp d ! compIndex))
                      (replicate blockSize 0)]\<rparr>
           else d) d ns)
     \<and> d_eobRun (foldl (\<lambda>d i.
        let compIndex = sc_compIndex (s_scan sc ! i)
        in if d_progCoeffs d ! compIndex = []
           then d\<lparr>d_progCoeffs := (d_progCoeffs d)[compIndex :=
                    replicate (mxx * myy * comp_h (d_comp d ! compIndex)
                                 * comp_v (d_comp d ! compIndex))
                      (replicate blockSize 0)]\<rparr>
           else d) d ns) = d_eobRun d" for ns
    by (induction ns rule: rev_induct) (auto simp: Let_def sframe_def)
  then show ?thesis by (simp add: allocProgCoeffs_def)
qed

text \<open>The state in which the loops start (lines 150 to 179).\<close>

lemma scanSetup_init:
  assumes "scanSetup env sc d buf calls = Inr (mxx, myy, st0)"
  shows "st_mcu st0 = 0" "st_blockCount st0 = 0" "st_expectedRST st0 = rst0Marker"
    "st_dc st0 = replicate maxComponents 0" "st_calls st0 = calls"
    "st_processSOSBuf st0 = buf" "d_bits (st_d st0) = e_bits0 env"
    "sframe d (st_d st0)" "d_eobRun (st_d st0) = d_eobRun d"
    "mxx = (d_width d + 8 * comp_h (d_comp d ! 0) - 1) div (8 * comp_h (d_comp d ! 0))"
    "myy = (d_height d + 8 * comp_v (d_comp d ! 0) - 1) div (8 * comp_v (d_comp d ! 0))"
proof -
  let ?m = "if \<not> d_img1 d \<and> \<not> d_img3 d then makeImg 1 1 d else Inr d"
  from assms have nz: "\<not> (comp_h (d_comp d ! 0) = 0 \<or> comp_v (d_comp d ! 0) = 0)"
    by (auto simp: scanSetup_def Let_def split: if_splits)
  with assms obtain d1 where d1: "?m = Inr d1"
    by (cases ?m) (simp_all add: scanSetup_def Let_def)
  then have k1: "sframe d d1 \<and> d_eobRun d1 = d_eobRun d"
    using makeImg_keeps [of 1 1 d d1] by (auto split: if_splits)
  let ?d2 = "if d_progressive d1
             then allocProgCoeffs sc
               ((d_width d + 8 * comp_h (d_comp d ! 0) - 1) div (8 * comp_h (d_comp d ! 0)))
               ((d_height d + 8 * comp_v (d_comp d ! 0) - 1) div (8 * comp_v (d_comp d ! 0))) d1
             else d1"
  have k2: "sframe d1 ?d2 \<and> d_eobRun ?d2 = d_eobRun d1"
    by (simp add: allocProgCoeffs_keeps)
  from assms nz d1 have res:
    "mxx = (d_width d + 8 * comp_h (d_comp d ! 0) - 1) div (8 * comp_h (d_comp d ! 0))
     \<and> myy = (d_height d + 8 * comp_v (d_comp d ! 0) - 1) div (8 * comp_v (d_comp d ! 0))
     \<and> st0 = \<lparr>st_d = ?d2\<lparr>d_bits := e_bits0 env\<rparr>, st_dc = replicate maxComponents 0,
              st_blockCount = 0, st_mcu = 0, st_expectedRST = rst0Marker,
              st_processSOSBuf = buf, st_calls = calls\<rparr>"
    by (auto simp: scanSetup_def Let_def)
  from res show "st_mcu st0 = 0" "st_blockCount st0 = 0" "st_expectedRST st0 = rst0Marker"
    "st_dc st0 = replicate maxComponents 0" "st_calls st0 = calls"
    "st_processSOSBuf st0 = buf" "d_bits (st_d st0) = e_bits0 env"
    "mxx = (d_width d + 8 * comp_h (d_comp d ! 0) - 1) div (8 * comp_h (d_comp d ! 0))"
    "myy = (d_height d + 8 * comp_v (d_comp d ! 0) - 1) div (8 * comp_v (d_comp d ! 0))"
    by simp_all
  from res k1 k2 show "sframe d (st_d st0)" "d_eobRun (st_d st0) = d_eobRun d"
    by (auto simp: sframe_def)
qed


lemma mcuStep_restartInv:
  assumes inv: "restartInv env d (mxx * myy) k st"
    and step: "mcuStep env sc mxx myy my mx st = Inr st'"
  shows "restartInv env d (mxx * myy) (Suc k) st'"
proof -
  from step obtain t where t: "mcuBlocks env sc mxx my mx st = Inr t"
    and rs: "restartStep env mxx myy t = Inr st'"
    unfolding mcuStep_def by (rule bindE_InrE)
  from mcuBlocks_frame [OF t] inv
  have t1: "st_mcu t = k" "st_expectedRST t = st_expectedRST st" "sframe d (st_d t)"
    by (auto simp: restartInv_def intro: sframe_trans)
  then have ri: "d_ri (st_d t) = d_ri d" by (simp add: sframe_def)
  from restartStep_frame [OF rs] t1
  have fr: "st_mcu st' = Suc k" "sframe d (st_d st')" by (auto intro: sframe_trans)
  let ?due = "0 < d_ri d \<and> Suc k mod d_ri d = 0 \<and> Suc k < mxx * myy"
  show ?thesis
  proof (cases ?due)
    case False
    with rs t1 ri have st': "st' = t\<lparr>st_mcu := st_mcu t + 1\<rparr>"
      by (simp add: restartStep_eq)
    have "st_expectedRST st' = rst0Marker + of_nat (Suc k div d_ri d mod 8)"
      if "0 < d_ri d" "Suc k < mxx * myy"
    proof -
      from that False have "Suc k mod d_ri d \<noteq> 0" by simp
      then have "Suc k div d_ri d = k div d_ri d" by (simp add: div_Suc)
      with inv that t1 st' show ?thesis by (simp add: restartInv_def)
    qed
    with fr False show ?thesis by (auto simp: restartInv_def)
  next
    case True
    with rs t1 ri have "bindE (readFull env 2 (st_d t)) (\<lambda>d1.
           bindE (if d_tmp d1 ! 0 = 0xff \<and> d_tmp d1 ! 1 = 0x00
                  then readFull env 2 d1 else Inr d1) (\<lambda>d2.
             if d_tmp d2 ! 0 = 0xff \<and> d_tmp d2 ! 1 = st_expectedRST t
             then Inr (t\<lparr>st_mcu := st_mcu t + 1,
                          st_d := d2\<lparr>d_bits := e_bits0 env, d_eobRun := 0\<rparr>,
                          st_dc := replicate maxComponents 0,
                          st_expectedRST :=
                            (if st_expectedRST t + 1 = rst7Marker + 1 then rst0Marker
                             else st_expectedRST t + 1)\<rparr>)
             else Inl (FormatError ''bad RST marker''))) = Inr st'"
      by (simp add: restartStep_eq)
    then obtain d1 where
      r1: "bindE (if d_tmp d1 ! 0 = 0xff \<and> d_tmp d1 ! 1 = 0x00
                  then readFull env 2 d1 else Inr d1) (\<lambda>d2.
             if d_tmp d2 ! 0 = 0xff \<and> d_tmp d2 ! 1 = st_expectedRST t
             then Inr (t\<lparr>st_mcu := st_mcu t + 1,
                          st_d := d2\<lparr>d_bits := e_bits0 env, d_eobRun := 0\<rparr>,
                          st_dc := replicate maxComponents 0,
                          st_expectedRST :=
                            (if st_expectedRST t + 1 = rst7Marker + 1 then rst0Marker
                             else st_expectedRST t + 1)\<rparr>)
             else Inl (FormatError ''bad RST marker'')) = Inr st'"
      by (rule bindE_InrE)
    from r1 obtain d2 where
      r2: "(if d_tmp d2 ! 0 = 0xff \<and> d_tmp d2 ! 1 = st_expectedRST t
             then Inr (t\<lparr>st_mcu := st_mcu t + 1,
                          st_d := d2\<lparr>d_bits := e_bits0 env, d_eobRun := 0\<rparr>,
                          st_dc := replicate maxComponents 0,
                          st_expectedRST :=
                            (if st_expectedRST t + 1 = rst7Marker + 1 then rst0Marker
                             else st_expectedRST t + 1)\<rparr>)
             else Inl (FormatError ''bad RST marker'')) = Inr st'"
      by (rule bindE_InrE)
    then have st': "st_dc st' = replicate maxComponents 0"
      "d_bits (st_d st') = e_bits0 env" "d_eobRun (st_d st') = 0"
      "st_expectedRST st' = (if st_expectedRST t + 1 = rst7Marker + 1 then rst0Marker
                             else st_expectedRST t + 1)"
      by (auto split: if_splits)
    from True have kn: "k < mxx * myy" by simp
    with inv True t1 have e: "st_expectedRST t = rst0Marker + of_nat (k div d_ri d mod 8)"
      by (simp add: restartInv_def)
    from True have dv: "Suc k div d_ri d = Suc (k div d_ri d)" by (simp add: div_Suc)
    have "st_expectedRST st' = rst0Marker + of_nat ((k div d_ri d mod 8 + 1) mod 8)"
      unfolding st'(4) e by (rule next_rst) simp
    also have "(k div d_ri d mod 8 + 1) mod 8 = Suc k div d_ri d mod 8"
      unfolding dv by (simp add: mod_Suc_eq)
    finally have "st_expectedRST st' = rst0Marker + of_nat (Suc k div d_ri d mod 8)" .
    with fr st' show ?thesis by (simp add: restartInv_def)
  qed
qed

lemma mcuPrefix_restartInv:
  assumes ini: "scanSetup env sc d buf calls = Inr (mxx, myy, st0)"
    and pre: "mcuPrefix env sc mxx myy k st0 = Inr st"
  shows "restartInv env d (mxx * myy) k st"
proof -
  from pre have "forM [0..<k] (\<lambda>m. mcuStep env sc mxx myy (m div mxx) (m mod mxx)) st0 = Inr st"
    by (simp add: mcuPrefix_def)
  then show ?thesis
  proof (rule forM_upt_inv [where P = "restartInv env d (mxx * myy)"])
    from scanSetup_init [OF ini] show "restartInv env d (mxx * myy) 0 st0"
      by (simp add: restartInv_def)
  next
    fix i t t'
    assume "restartInv env d (mxx * myy) i t"
      and "mcuStep env sc mxx myy (i div mxx) (i mod mxx) t = Inr t'"
    then show "restartInv env d (mxx * myy) (Suc i) t'" by (rule mcuStep_restartInv)
  qed
qed


subsection \<open>Restart markers\<close>

text \<open>
  Claim C3. The state is the one that the loops reach from the start of the scan after
  \<open>k\<close> MCUs, and \<open>st1\<close> is the state after the blocks of MCU number \<open>k\<close>. With a restart
  interval \<open>r = d.ri > 0\<close>: when \<open>k\<close> is a multiple of \<open>r\<close> (the entry of a group of \<open>r\<close>
  MCUs) all DC predictors are zero and the bit reader is in its zero state, and after
  the first group \<^verbatim>\<open>eobRun\<close> is zero. After the blocks of MCU \<open>k\<close> the marker is read when
  \<open>k + 1\<close> is a multiple of \<open>r\<close> and MCU \<open>k\<close> is not the last one: two bytes are read, two
  more when the first two are FF 00, and they must be FF and the marker number
  \<open>(k div r) mod 8\<close> counted from RST0, or the result is the FormatError
  \<^verbatim>\<open>bad RST marker\<close>; then the bit reader, the predictors and \<^verbatim>\<open>eobRun\<close> are reset and the
  next marker is expected. In every other case only the MCU counter changes.
\<close>

theorem C3_restart:
  assumes ini: "scanSetup env sc d buf calls = Inr (mxx, myy, st0)"
    and pre: "mcuPrefix env sc mxx myy k st0 = Inr st"
    and blk: "mcuBlocks env sc mxx (k div mxx) (k mod mxx) st = Inr st1"
  shows "(0 < d_ri d \<and> k mod d_ri d = 0 \<and> k < mxx * myy \<longrightarrow>
            st_dc st = replicate maxComponents 0 \<and> d_bits (st_d st) = e_bits0 env
            \<and> (0 < k \<longrightarrow> d_eobRun (st_d st) = 0))
       \<and> (if 0 < d_ri d \<and> (k + 1) mod d_ri d = 0 \<and> k + 1 < mxx * myy
          then restartStep env mxx myy st1 =
                 bindE (readFull env 2 (st_d st1)) (\<lambda>d1.
                 bindE (if d_tmp d1 ! 0 = 0xff \<and> d_tmp d1 ! 1 = 0x00
                        then readFull env 2 d1 else Inr d1) (\<lambda>d2.
                   if d_tmp d2 ! 0 = 0xff
                      \<and> d_tmp d2 ! 1 = rst0Marker + of_nat (k div d_ri d mod 8)
                   then Inr (st1\<lparr>st_mcu := k + 1,
                                  st_d := d2\<lparr>d_bits := e_bits0 env, d_eobRun := 0\<rparr>,
                                  st_dc := replicate maxComponents 0,
                                  st_expectedRST :=
                                    rst0Marker + of_nat ((k div d_ri d + 1) mod 8)\<rparr>)
                   else Inl (FormatError ''bad RST marker'')))
          else restartStep env mxx myy st1 = Inr (st1\<lparr>st_mcu := k + 1\<rparr>))"
proof -
  from mcuPrefix_restartInv [OF ini pre] have inv: "restartInv env d (mxx * myy) k st" .
  from mcuBlocks_frame [OF blk] inv
  have t1: "st_mcu st1 = k" "st_expectedRST st1 = st_expectedRST st" "sframe d (st_d st1)"
    by (auto simp: restartInv_def intro: sframe_trans)
  then have ri: "d_ri (st_d st1) = d_ri d" by (simp add: sframe_def)
  have a: "st_dc st = replicate maxComponents 0 \<and> d_bits (st_d st) = e_bits0 env
            \<and> (0 < k \<longrightarrow> d_eobRun (st_d st) = 0)"
    if "0 < d_ri d \<and> k mod d_ri d = 0 \<and> k < mxx * myy"
    using inv that by (simp add: restartInv_def)
  let ?due = "0 < d_ri d \<and> (k + 1) mod d_ri d = 0 \<and> k + 1 < mxx * myy"
  have b: "restartStep env mxx myy st1 = Inr (st1\<lparr>st_mcu := k + 1\<rparr>)" if "\<not> ?due"
  proof -
    from that t1 ri
    have "\<not> (d_ri (st_d st1) > 0 \<and> (st_mcu st1 + 1) mod d_ri (st_d st1) = 0
             \<and> st_mcu st1 + 1 < mxx * myy)"
      by simp
    then have "restartStep env mxx myy st1 = Inr (st1\<lparr>st_mcu := st_mcu st1 + 1\<rparr>)"
      by (subst restartStep_eq) (simp only: if_False)
    with t1 show ?thesis by simp
  qed
  have c: "restartStep env mxx myy st1 =
                 bindE (readFull env 2 (st_d st1)) (\<lambda>d1.
                 bindE (if d_tmp d1 ! 0 = 0xff \<and> d_tmp d1 ! 1 = 0x00
                        then readFull env 2 d1 else Inr d1) (\<lambda>d2.
                   if d_tmp d2 ! 0 = 0xff
                      \<and> d_tmp d2 ! 1 = rst0Marker + of_nat (k div d_ri d mod 8)
                   then Inr (st1\<lparr>st_mcu := k + 1,
                                  st_d := d2\<lparr>d_bits := e_bits0 env, d_eobRun := 0\<rparr>,
                                  st_dc := replicate maxComponents 0,
                                  st_expectedRST :=
                                    rst0Marker + of_nat ((k div d_ri d + 1) mod 8)\<rparr>)
                   else Inl (FormatError ''bad RST marker'')))" if due: "?due"
  proof -
    from due have kn: "k < mxx * myy" by simp
    with inv due t1 have e: "st_expectedRST st1 = rst0Marker + of_nat (k div d_ri d mod 8)"
      by (simp add: restartInv_def)
    have n: "(if rst0Marker + of_nat (k div d_ri d mod 8) + 1 = rst7Marker + 1 then rst0Marker
              else rst0Marker + of_nat (k div d_ri d mod 8) + 1)
             = rst0Marker + of_nat ((k div d_ri d + 1) mod 8)"
      using next_rst [of "k div d_ri d mod 8"] by (simp add: mod_Suc_eq)
    from due t1 ri
    have "d_ri (st_d st1) > 0 \<and> (st_mcu st1 + 1) mod d_ri (st_d st1) = 0
             \<and> st_mcu st1 + 1 < mxx * myy"
      by simp
    then have "restartStep env mxx myy st1 =
      bindE (readFull env 2 (st_d st1)) (\<lambda>d1.
           bindE (if d_tmp d1 ! 0 = 0xff \<and> d_tmp d1 ! 1 = 0x00
                  then readFull env 2 d1 else Inr d1) (\<lambda>d2.
             if d_tmp d2 ! 0 = 0xff \<and> d_tmp d2 ! 1 = st_expectedRST st1
             then Inr (st1\<lparr>st_mcu := st_mcu st1 + 1,
                          st_d := d2\<lparr>d_bits := e_bits0 env, d_eobRun := 0\<rparr>,
                          st_dc := replicate maxComponents 0,
                          st_expectedRST :=
                            (if st_expectedRST st1 + 1 = rst7Marker + 1 then rst0Marker
                             else st_expectedRST st1 + 1)\<rparr>)
             else Inl (FormatError ''bad RST marker'')))"
      by (subst restartStep_eq) (simp only: if_True simp_thms)
    then show ?thesis unfolding e n t1(1) .
  qed
  have a': "0 < d_ri d \<and> k mod d_ri d = 0 \<and> k < mxx * myy \<longrightarrow>
            st_dc st = replicate maxComponents 0 \<and> d_bits (st_d st) = e_bits0 env
            \<and> (0 < k \<longrightarrow> d_eobRun (st_d st) = 0)"
    using a by blast
  show ?thesis
  proof (cases ?due)
    case True
    show ?thesis
      by (rule conjI, rule a', subst if_P [OF True], rule c [OF True])
  next
    case False
    show ?thesis
      by (rule conjI, rule a', subst if_not_P [OF False], rule b [OF False])
  qed
qed

text \<open>
  The two MCUs of the example: after the first one the predictor is 3, the marker RST0
  is read, and the second MCU starts with all predictors zero, \<^verbatim>\<open>eobRun\<close> zero and RST1
  expected; after the second, the last one, no marker is read.
\<close>

theorem C3_restart_witness:
  "\<exists>st0 st1 st2 st3.
      scanSetup scriptEnv exScanDC exGrayRst [] [] = Inr (2, 1, st0)
    \<and> mcuBlocks scriptEnv exScanDC 2 0 0 st0 = Inr st1
    \<and> st_dc st1 = [3, 0, 0, 0]
    \<and> restartStep scriptEnv 2 1 st1 = Inr st2
    \<and> mcuPrefix scriptEnv exScanDC 2 1 1 st0 = Inr st2
    \<and> st_dc st2 = [0, 0, 0, 0] \<and> st_expectedRST st2 = 0xd1 \<and> st_mcu st2 = 1
    \<and> d_bits (st_d st2) = 0 \<and> d_eobRun (st_d st2) = 0
    \<and> mcuBlocks scriptEnv exScanDC 2 0 1 st2 = Inr st3
    \<and> restartStep scriptEnv 2 1 st3 = Inr (st3\<lparr>st_mcu := 2\<rparr>)"
proof -
  let ?buf = "[] :: 8 word list"
  let ?nxt = "\<lambda>st1 d1. st1\<lparr>st_mcu := 1, st_d := d1\<lparr>d_bits := 0, d_eobRun := 0\<rparr>,
                  st_dc := replicate maxComponents 0, st_expectedRST := 0xd1\<rparr>"
  have "case scanSetup scriptEnv exScanDC exGrayRst ?buf [] of
          Inl e \<Rightarrow> False
        | Inr (mxx, myy, st0) \<Rightarrow> mxx = 2 \<and> myy = 1 \<and>
            (case mcuBlocks scriptEnv exScanDC 2 0 0 st0 of
               Inl e \<Rightarrow> False
             | Inr st1 \<Rightarrow> st_dc st1 = [3, 0, 0, 0] \<and>
                 (case readFull scriptEnv 2 (st_d st1) of
                    Inl e \<Rightarrow> False
                  | Inr d1 \<Rightarrow> d_tmp d1 ! 0 = 0xff \<and> d_tmp d1 ! 1 = 0xd0 \<and>
                      (case mcuBlocks scriptEnv exScanDC 2 0 1 (?nxt st1 d1) of
                         Inl e \<Rightarrow> False
                       | Inr st3 \<Rightarrow> True)))"
    by code_simp
  then obtain x where x: "scanSetup scriptEnv exScanDC exGrayRst ?buf [] = Inr x"
    "case x of (mxx, myy, st0) \<Rightarrow> mxx = 2 \<and> myy = 1 \<and>
            (case mcuBlocks scriptEnv exScanDC 2 0 0 st0 of
               Inl e \<Rightarrow> False
             | Inr st1 \<Rightarrow> st_dc st1 = [3, 0, 0, 0] \<and>
                 (case readFull scriptEnv 2 (st_d st1) of
                    Inl e \<Rightarrow> False
                  | Inr d1 \<Rightarrow> d_tmp d1 ! 0 = 0xff \<and> d_tmp d1 ! 1 = 0xd0 \<and>
                      (case mcuBlocks scriptEnv exScanDC 2 0 1 (?nxt st1 d1) of
                         Inl e \<Rightarrow> False
                       | Inr st3 \<Rightarrow> True)))"
    by (rule case_InrE)
  obtain st0 where st0: "x = (2, 1, st0)"
    "case mcuBlocks scriptEnv exScanDC 2 0 0 st0 of
               Inl e \<Rightarrow> False
             | Inr st1 \<Rightarrow> st_dc st1 = [3, 0, 0, 0] \<and>
                 (case readFull scriptEnv 2 (st_d st1) of
                    Inl e \<Rightarrow> False
                  | Inr d1 \<Rightarrow> d_tmp d1 ! 0 = 0xff \<and> d_tmp d1 ! 1 = 0xd0 \<and>
                      (case mcuBlocks scriptEnv exScanDC 2 0 1 (?nxt st1 d1) of
                         Inl e \<Rightarrow> False
                       | Inr st3 \<Rightarrow> True))"
    using x(2) by (cases x) auto
  from x(1) st0(1)
  have su: "scanSetup scriptEnv exScanDC exGrayRst ?buf [] = Inr (2, 1, st0)" by simp
  from st0(2) obtain st1 where st1: "mcuBlocks scriptEnv exScanDC 2 0 0 st0 = Inr st1"
    "st_dc st1 = [3, 0, 0, 0] \<and>
       (case readFull scriptEnv 2 (st_d st1) of
          Inl e \<Rightarrow> False
        | Inr d1 \<Rightarrow> d_tmp d1 ! 0 = 0xff \<and> d_tmp d1 ! 1 = 0xd0 \<and>
            (case mcuBlocks scriptEnv exScanDC 2 0 1 (?nxt st1 d1) of
               Inl e \<Rightarrow> False
             | Inr st3 \<Rightarrow> True))"
    by (rule case_InrE)
  from st1(2) have "case readFull scriptEnv 2 (st_d st1) of
          Inl e \<Rightarrow> False
        | Inr d1 \<Rightarrow> d_tmp d1 ! 0 = 0xff \<and> d_tmp d1 ! 1 = 0xd0 \<and>
            (case mcuBlocks scriptEnv exScanDC 2 0 1 (?nxt st1 d1) of
               Inl e \<Rightarrow> False
             | Inr st3 \<Rightarrow> True)"
    by (rule conjunct2)
  then obtain d1 where d1: "readFull scriptEnv 2 (st_d st1) = Inr d1"
    "d_tmp d1 ! 0 = 0xff \<and> d_tmp d1 ! 1 = 0xd0 \<and>
       (case mcuBlocks scriptEnv exScanDC 2 0 1 (?nxt st1 d1) of
          Inl e \<Rightarrow> False
        | Inr st3 \<Rightarrow> True)"
    by (rule case_InrE)
  from d1(2) have "case mcuBlocks scriptEnv exScanDC 2 0 1 (?nxt st1 d1) of
          Inl e \<Rightarrow> False
        | Inr st3 \<Rightarrow> True"
    by simp
  then obtain st3 where st3: "mcuBlocks scriptEnv exScanDC 2 0 1 (?nxt st1 d1) = Inr st3"
    by (rule case_InrE)
  have ri: "d_ri exGrayRst = 1" by (simp add: exGrayRst_def)
  have b0: "e_bits0 scriptEnv = 0" by (simp add: scriptEnv_def)
  have p0: "mcuPrefix scriptEnv exScanDC 2 1 0 st0 = Inr st0" by (simp add: mcuPrefix_def)
  have blk0: "mcuBlocks scriptEnv exScanDC 2 (0 div 2) (0 mod 2) st0 = Inr st1"
    using st1(1) by simp
  from C3_restart [OF su p0 blk0] ri d1 b0
  have rs: "restartStep scriptEnv 2 1 st1 = Inr (?nxt st1 d1)"
    by (simp add: rst0Marker_def)
  have p1: "mcuPrefix scriptEnv exScanDC 2 1 1 st0 = Inr (?nxt st1 d1)"
    using st1(1) rs by (simp add: mcuPrefix_def mcuStep_def)
  have blk1: "mcuBlocks scriptEnv exScanDC 2 (1 div 2) (1 mod 2) (?nxt st1 d1) = Inr st3"
    using st3 by simp
  from C3_restart [OF su p1 blk1] ri
  have fin: "st_dc (?nxt st1 d1) = replicate maxComponents 0"
    "restartStep scriptEnv 2 1 st3 = Inr (st3\<lparr>st_mcu := 2\<rparr>)"
    by simp_all
  have r4: "replicate maxComponents (0 :: 32 word) = [0, 0, 0, 0]"
    by (simp add: maxComponents_def numeral_eq_Suc)
  from su st1 rs p1 st3 fin r4 show ?thesis
    apply -
    apply (rule exI [of _ st0])
    apply (rule exI [of _ st1])
    apply (rule exI [of _ "?nxt st1 d1"])
    apply (rule exI [of _ st3])
    apply simp
    done
qed

subsection \<open>The order of the blocks\<close>

lemma blockSteps_count:
  assumes "forM [0..<j] (blockStep env sc mxx my mx i) st1 = Inr st"
    and "s_nComp sc = 1"
  shows "st_blockCount st = st_blockCount st1 + j \<and> sframe (st_d st1) (st_d st)"
  using assms(1)
proof (rule forM_upt_inv
    [where P = "\<lambda>j t. st_blockCount t = st_blockCount st1 + j \<and> sframe (st_d st1) (st_d t)"])
  show "st_blockCount st1 = st_blockCount st1 + 0 \<and> sframe (st_d st1) (st_d st1)" by simp
next
  fix n t t'
  assume "st_blockCount t = st_blockCount st1 + n \<and> sframe (st_d st1) (st_d t)"
    and "blockStep env sc mxx my mx i n t = Inr t'"
  with blockStep_frame [of env sc mxx my mx i n t t'] assms(2)
  show "st_blockCount t' = st_blockCount st1 + Suc n \<and> sframe (st_d st1) (st_d t')"
    by (auto intro: sframe_trans)
qed

lemma mcuBlocks_single:
  assumes "s_nComp sc = 1"
  shows "mcuBlocks env sc mxx my mx st =
           forM [0..<comp_h (d_comp (st_d st) ! sc_compIndex (s_scan sc ! 0))
                      * comp_v (d_comp (st_d st) ! sc_compIndex (s_scan sc ! 0))]
             (blockStep env sc mxx my mx 0) st"
  using assms by (simp add: mcuBlocks_def Let_def split: sum.splits)

lemma mcuStep_count:
  assumes one: "s_nComp sc = 1"
    and step: "mcuStep env sc mxx myy my mx st = Inr st'"
  shows "st_blockCount st' = st_blockCount st
            + comp_h (d_comp (st_d st) ! sc_compIndex (s_scan sc ! 0))
              * comp_v (d_comp (st_d st) ! sc_compIndex (s_scan sc ! 0))
       \<and> sframe (st_d st) (st_d st')"
proof -
  from step obtain t where t: "mcuBlocks env sc mxx my mx st = Inr t"
    and rs: "restartStep env mxx myy t = Inr st'"
    unfolding mcuStep_def by (rule bindE_InrE)
  from t blockSteps_count [OF _ one, of _ env mxx my mx 0 st t]
  have "st_blockCount t = st_blockCount st
            + comp_h (d_comp (st_d st) ! sc_compIndex (s_scan sc ! 0))
              * comp_v (d_comp (st_d st) ! sc_compIndex (s_scan sc ! 0))
       \<and> sframe (st_d st) (st_d t)"
    by (simp add: mcuBlocks_single [OF one])
  with restartStep_frame [OF rs] show ?thesis by (auto intro: sframe_trans)
qed

lemma mcuPrefix_count:
  assumes one: "s_nComp sc = 1"
    and ini: "scanSetup env sc d buf calls = Inr (mxx, myy, st0)"
    and pre: "mcuPrefix env sc mxx myy k st0 = Inr st"
  shows "st_blockCount st = k * (comp_h (d_comp d ! sc_compIndex (s_scan sc ! 0))
                                * comp_v (d_comp d ! sc_compIndex (s_scan sc ! 0)))
       \<and> sframe d (st_d st)"
proof -
  let ?hv = "comp_h (d_comp d ! sc_compIndex (s_scan sc ! 0))
               * comp_v (d_comp d ! sc_compIndex (s_scan sc ! 0))"
  from pre have "forM [0..<k] (\<lambda>m. mcuStep env sc mxx myy (m div mxx) (m mod mxx)) st0 = Inr st"
    by (simp add: mcuPrefix_def)
  then show ?thesis
  proof (rule forM_upt_inv
      [where P = "\<lambda>k t. st_blockCount t = k * ?hv \<and> sframe d (st_d t)"])
    from scanSetup_init [OF ini] show "st_blockCount st0 = 0 * ?hv \<and> sframe d (st_d st0)"
      by simp
  next
    fix n t t'
    assume a: "st_blockCount t = n * ?hv \<and> sframe d (st_d t)"
      and s: "mcuStep env sc mxx myy (n div mxx) (n mod mxx) t = Inr t'"
    from a have "d_comp (st_d t) = d_comp d" by (simp add: sframe_def)
    with mcuStep_count [OF one s] a
    show "st_blockCount t' = Suc n * ?hv \<and> sframe d (st_d t')"
      by (auto intro: sframe_trans)
  qed
qed

text \<open>
  Claim C2. In a scan of more than one component (\<^verbatim>\<open>nComp != 1\<close>) the body of the loop
  over \<open>j\<close> works on the block at \<open>(hi * mx + j mod hi, vi * my + j div hi)\<close>. In a scan of
  one component, take the state that the loops reach from the start of the scan after
  \<open>k\<close> MCUs and \<open>j\<close> more blocks: the block counter is \<open>n = k * (hi * vi) + j\<close>, the number
  of iterations so far, and the body works on the block at \<open>(n mod q, n div q)\<close> for the
  grid width \<open>q = mxx * hi\<close>, which is raster order; when \<open>8 * bx\<close> or \<open>8 * by\<close> is not
  inside the image, the body only counts the block: the decoder, with its bit reader
  and byte source, stays as it is.
\<close>

theorem C2_block_coordinates:
  "(s_nComp sc \<noteq> 1 \<longrightarrow>
      blockStep env sc mxx my mx i j st =
        processBlock env sc mxx i
          (comp_h (d_comp (st_d st) ! sc_compIndex (s_scan sc ! i)) * mx
             + j mod comp_h (d_comp (st_d st) ! sc_compIndex (s_scan sc ! i)))
          (comp_v (d_comp (st_d st) ! sc_compIndex (s_scan sc ! i)) * my
             + j div comp_h (d_comp (st_d st) ! sc_compIndex (s_scan sc ! i)))
          st)
   \<and> (s_nComp sc = 1
        \<and> scanSetup env sc d buf calls = Inr (mxx, myy, st0)
        \<and> mcuPrefix env sc mxx myy k st0 = Inr st1
        \<and> forM [0..<j] (blockStep env sc mxx (k div mxx) (k mod mxx) 0) st1 = Inr st \<longrightarrow>
      (let hi = comp_h (d_comp d ! sc_compIndex (s_scan sc ! 0));
           vi = comp_v (d_comp d ! sc_compIndex (s_scan sc ! 0));
           n = k * (hi * vi) + j;
           bx = n mod (mxx * hi);
           byy = n div (mxx * hi)
       in st_blockCount st = n
          \<and> blockStep env sc mxx (k div mxx) (k mod mxx) 0 j st =
              (if d_width d \<le> bx * 8 \<or> d_height d \<le> byy * 8
               then Inr (st\<lparr>st_blockCount := n + 1\<rparr>)
               else processBlock env sc mxx 0 bx byy (st\<lparr>st_blockCount := n + 1\<rparr>))))"
proof (rule conjI)
  show "s_nComp sc \<noteq> 1 \<longrightarrow>
      blockStep env sc mxx my mx i j st =
        processBlock env sc mxx i
          (comp_h (d_comp (st_d st) ! sc_compIndex (s_scan sc ! i)) * mx
             + j mod comp_h (d_comp (st_d st) ! sc_compIndex (s_scan sc ! i)))
          (comp_v (d_comp (st_d st) ! sc_compIndex (s_scan sc ! i)) * my
             + j div comp_h (d_comp (st_d st) ! sc_compIndex (s_scan sc ! i)))
          st"
    by (simp add: blockStep_def Let_def)
next
  let ?hi = "comp_h (d_comp d ! sc_compIndex (s_scan sc ! 0))"
  let ?vi = "comp_v (d_comp d ! sc_compIndex (s_scan sc ! 0))"
  let ?n = "k * (?hi * ?vi) + j"
  have "st_blockCount st = ?n
          \<and> blockStep env sc mxx (k div mxx) (k mod mxx) 0 j st =
              (if d_width d \<le> ?n mod (mxx * ?hi) * 8 \<or> d_height d \<le> ?n div (mxx * ?hi) * 8
               then Inr (st\<lparr>st_blockCount := ?n + 1\<rparr>)
               else processBlock env sc mxx 0 (?n mod (mxx * ?hi)) (?n div (mxx * ?hi))
                      (st\<lparr>st_blockCount := ?n + 1\<rparr>))"
    if one: "s_nComp sc = 1"
      and ini: "scanSetup env sc d buf calls = Inr (mxx, myy, st0)"
      and pre: "mcuPrefix env sc mxx myy k st0 = Inr st1"
      and bl: "forM [0..<j] (blockStep env sc mxx (k div mxx) (k mod mxx) 0) st1 = Inr st"
  proof -
    from mcuPrefix_count [OF one ini pre]
    have c1: "st_blockCount st1 = k * (?hi * ?vi)" and f1: "sframe d (st_d st1)" by simp_all
    from blockSteps_count [OF bl one] c1 f1
    have c: "st_blockCount st = ?n" and f: "sframe d (st_d st)"
      by (auto intro: sframe_trans)
    from f have same: "d_comp (st_d st) = d_comp d" "d_width (st_d st) = d_width d"
      "d_height (st_d st) = d_height d"
      by (simp_all add: sframe_def)
    from one show ?thesis
      unfolding blockStep_def Let_def same c by (simp add: c)
  qed
  then show "s_nComp sc = 1
        \<and> scanSetup env sc d buf calls = Inr (mxx, myy, st0)
        \<and> mcuPrefix env sc mxx myy k st0 = Inr st1
        \<and> forM [0..<j] (blockStep env sc mxx (k div mxx) (k mod mxx) 0) st1 = Inr st \<longrightarrow>
      (let hi = comp_h (d_comp d ! sc_compIndex (s_scan sc ! 0));
           vi = comp_v (d_comp d ! sc_compIndex (s_scan sc ! 0));
           n = k * (hi * vi) + j;
           bx = n mod (mxx * hi);
           byy = n div (mxx * hi)
       in st_blockCount st = n
          \<and> blockStep env sc mxx (k div mxx) (k mod mxx) 0 j st =
              (if d_width d \<le> bx * 8 \<or> d_height d \<le> byy * 8
               then Inr (st\<lparr>st_blockCount := n + 1\<rparr>)
               else processBlock env sc mxx 0 bx byy (st\<lparr>st_blockCount := n + 1\<rparr>)))"
    unfolding Let_def by blast
qed

text \<open>
  A progressive 4:2:0 image of 24 x 16 pixels (two MCUs). In the AC scan of the luma
  the first block of the second MCU is number 4, at \<open>(0, 1)\<close>, and block number 3, at
  \<open>(3, 0)\<close>, is outside the image and is skipped. In the interleaved scan the fourth
  luma block of the second MCU is at \<open>(3, 1)\<close>.
\<close>

theorem C2_block_coordinates_witness:
  "(\<exists>st0 st.
      scanSetup scriptEnv exScanAC (ex420 True 24 16 (replicate 6 (THuff 0))) [] []
        = Inr (2, 1, st0)
      \<and> mcuPrefix scriptEnv exScanAC 2 1 1 st0 = Inr st
      \<and> st_blockCount st = 4
      \<and> blockStep scriptEnv exScanAC 2 0 1 0 0 st =
          processBlock scriptEnv exScanAC 2 0 0 1 (st\<lparr>st_blockCount := 5\<rparr>))
   \<and> (\<exists>st0 st.
      scanSetup scriptEnv exScanAC (ex420 True 24 16 (replicate 6 (THuff 0))) [] []
        = Inr (2, 1, st0)
      \<and> forM [0..<3] (blockStep scriptEnv exScanAC 2 0 0 0) st0 = Inr st
      \<and> st_blockCount st = 3
      \<and> blockStep scriptEnv exScanAC 2 0 0 0 3 st = Inr (st\<lparr>st_blockCount := 4\<rparr>))
   \<and> (\<exists>st0.
      scanSetup scriptEnv exScanInter (ex420 True 24 16 []) [] [] = Inr (2, 1, st0)
      \<and> blockStep scriptEnv exScanInter 2 0 1 0 3 st0 =
          processBlock scriptEnv exScanInter 2 0 3 1 st0)"
proof -
  let ?d = "ex420 True 24 16 (replicate 6 (THuff 0))"
  have dd: "comp_h (d_comp ?d ! sc_compIndex (s_scan exScanAC ! 0)) = 2"
    "comp_v (d_comp ?d ! sc_compIndex (s_scan exScanAC ! 0)) = 2"
    "d_width ?d = 24" "d_height ?d = 16" "s_nComp exScanAC = 1"
    by (simp_all add: ex420_def exScanAC_def newDecoder_def comp4_def mkComp_def
          maxComponents_def)
  have "case scanSetup scriptEnv exScanAC ?d [] [] of
          Inl e \<Rightarrow> False
        | Inr (mxx, myy, st0) \<Rightarrow> mxx = 2 \<and> myy = 1 \<and>
            (case mcuPrefix scriptEnv exScanAC 2 1 1 st0 of Inl e \<Rightarrow> False | Inr st \<Rightarrow> True)
            \<and> (case forM [0..<3] (blockStep scriptEnv exScanAC 2 0 0 0) st0 of
                  Inl e \<Rightarrow> False | Inr st \<Rightarrow> True)"
    by code_simp
  then obtain x where x: "scanSetup scriptEnv exScanAC ?d [] [] = Inr x"
    "case x of (mxx, myy, st0) \<Rightarrow> mxx = 2 \<and> myy = 1 \<and>
            (case mcuPrefix scriptEnv exScanAC 2 1 1 st0 of Inl e \<Rightarrow> False | Inr st \<Rightarrow> True)
            \<and> (case forM [0..<3] (blockStep scriptEnv exScanAC 2 0 0 0) st0 of
                  Inl e \<Rightarrow> False | Inr st \<Rightarrow> True)"
    by (rule case_InrE)
  obtain st0 where st0: "x = (2, 1, st0)"
    "case mcuPrefix scriptEnv exScanAC 2 1 1 st0 of Inl e \<Rightarrow> False | Inr st \<Rightarrow> True"
    "case forM [0..<3] (blockStep scriptEnv exScanAC 2 0 0 0) st0 of
       Inl e \<Rightarrow> False | Inr st \<Rightarrow> True"
    using x(2) by (cases x) auto
  from x(1) st0(1) have su: "scanSetup scriptEnv exScanAC ?d [] [] = Inr (2, 1, st0)" by simp
  from st0(2) obtain st where st: "mcuPrefix scriptEnv exScanAC 2 1 1 st0 = Inr st"
    by (rule case_InrE)
  from st0(3) obtain st' where st': "forM [0..<3] (blockStep scriptEnv exScanAC 2 0 0 0) st0 = Inr st'"
    by (rule case_InrE)
  have e0: "forM [0..<0] (blockStep scriptEnv exScanAC 2 (1 div 2) (1 mod 2) 0) st = Inr st"
    by simp
  from C2_block_coordinates [of exScanAC scriptEnv 2 _ _ _ 0 st ?d "[]" "[]" 1 st0 1 st]
    su st e0 dd
  have a: "st_blockCount st = 4
      \<and> blockStep scriptEnv exScanAC 2 0 1 0 0 st =
          processBlock scriptEnv exScanAC 2 0 0 1 (st\<lparr>st_blockCount := 5\<rparr>)"
    by (simp add: Let_def)
  have p0: "mcuPrefix scriptEnv exScanAC 2 1 0 st0 = Inr st0" by (simp add: mcuPrefix_def)
  from st' have b3: "forM [0..<3] (blockStep scriptEnv exScanAC 2 (0 div 2) (0 mod 2) 0) st0 = Inr st'"
    by simp
  from C2_block_coordinates [of exScanAC scriptEnv 2 _ _ _ 3 st' ?d "[]" "[]" 1 st0 0 st0]
    su p0 b3 dd
  have b: "st_blockCount st' = 3
      \<and> blockStep scriptEnv exScanAC 2 0 0 0 3 st' = Inr (st'\<lparr>st_blockCount := 4\<rparr>)"
    by (simp add: Let_def)
  let ?e = "ex420 True 24 16 []"
  have "case scanSetup scriptEnv exScanInter ?e [] [] of
          Inl e \<Rightarrow> False
        | Inr (mxx, myy, st0) \<Rightarrow> mxx = 2 \<and> myy = 1
            \<and> comp_h (d_comp (st_d st0) ! 0) = 2 \<and> comp_v (d_comp (st_d st0) ! 0) = 2"
    by code_simp
  then obtain y where y: "scanSetup scriptEnv exScanInter ?e [] [] = Inr y"
    "case y of (mxx, myy, st0) \<Rightarrow> mxx = 2 \<and> myy = 1
            \<and> comp_h (d_comp (st_d st0) ! 0) = 2 \<and> comp_v (d_comp (st_d st0) ! 0) = 2"
    by (rule case_InrE)
  obtain t0 where t0: "y = (2, 1, t0)"
    "comp_h (d_comp (st_d t0) ! 0) = 2 \<and> comp_v (d_comp (st_d t0) ! 0) = 2"
    using y(2) by (cases y) auto
  have si: "s_nComp exScanInter \<noteq> 1" "sc_compIndex (s_scan exScanInter ! 0) = 0"
    by (simp_all add: exScanInter_def)
  from C2_block_coordinates [of exScanInter scriptEnv 2 0 1 0 3 t0] si t0(2)
  have c: "blockStep scriptEnv exScanInter 2 0 1 0 3 t0 =
          processBlock scriptEnv exScanInter 2 0 3 1 t0"
    by simp
  from su st a st' b y(1) t0(1) c show ?thesis by blast
qed

subsection \<open>End-of-band runs across blocks and scans\<close>

lemma withAC_fields [simp]:
  "e_bits0 (withAC h env) = e_bits0 env"
  "e_readFull (withAC h env) = e_readFull env"
  "e_decodeHuffman (withAC h env) dcTable = e_decodeHuffman env dcTable"
  "e_decodeHuffman (withAC h env) acTable = h"
  "e_decodeBit (withAC h env) = e_decodeBit env"
  "e_decodeBits (withAC h env) = e_decodeBits env"
  "e_receiveExtend (withAC h env) = e_receiveExtend env"
  "e_idct (withAC h env) = e_idct env"
  "e_YCbCrToRGB (withAC h env) = e_YCbCrToRGB env"
  by (simp_all add: withAC_def dcTable_def acTable_def)

lemma withAC_simps [simp]:
  "decodeHuffman (withAC h env) dcTable = decodeHuffman env dcTable"
  "decodeBit (withAC h env) = decodeBit env"
  "decodeBits (withAC h env) = decodeBits env"
  "receiveExtend (withAC h env) = receiveExtend env"
  "reconstructBlock (withAC h env) = reconstructBlock env"
  "assembleTile (withAC h env) = assembleTile env"
  by (simp_all add: decodeHuffman_def decodeBit_def decodeBits_def receiveExtend_def
        reconstructBlock_def assembleTile_def callbackCall_def convertCell_def
        fun_eq_iff cong: if_cong)

lemma decodeDC_withAC [simp]: "decodeDC (withAC h env) = decodeDC env"
  by (simp add: decodeDC_def fun_eq_iff cong: if_cong)

lemma refineNonZeroes_withAC [simp]:
  "refineNonZeroes (withAC h env) b zig zigEnd nz delta d
     = refineNonZeroes env b zig zigEnd nz delta d"
proof (induction "zigEnd + 1 - zig" arbitrary: zig b nz d rule: less_induct)
  case less
  have ih: "refineNonZeroes (withAC h env) b' (Suc zig) zigEnd nz' delta d'
              = refineNonZeroes env b' (Suc zig) zigEnd nz' delta d'"
    if "zig \<le> zigEnd" for b' nz' d'
    using that by (intro less.hyps) simp
  show ?case
  proof (cases "zig \<le> zigEnd")
    case False
    then show ?thesis by (simp add: refineNonZeroes.simps)
  next
    case True
    show ?thesis
      by (subst refineNonZeroes.simps [of "withAC h env" b zig zigEnd nz delta d],
          subst refineNonZeroes.simps [of env b zig zigEnd nz delta d])
         (simp add: ih [OF True] Let_def cong: if_cong)
  qed
qed













end
